theory Spec2Isabelle
  imports Main
begin

unbundle bit_operations_syntax

section \<open>A set-associative cache simulator (cache.py)\<close>

text \<open>
  The class \<^verbatim>\<open>CacheSimulator\<close> of \<^verbatim>\<open>cache.py\<close> is embedded field by field.
  Python integers are unbounded, so they are \<open>int\<close>. A Python \<^verbatim>\<open>dict\<close> keeps its
  keys in insertion order, and \<^verbatim>\<open>min\<close>/\<^verbatim>\<open>max\<close> walk the keys in that order, so a
  dictionary is an association list with distinct keys, oldest key first. Every
  exception of the source is a value of \<open>py_error\<close>; a method that can raise returns
  \<open>py_error + 'a\<close>, and a method that mutates \<^verbatim>\<open>self\<close> returns the new object.
\<close>

subsection \<open>Exceptions\<close>

datatype py_error =
    IndexError
  | KeyError
  | ZeroDivisionError
  | ValueError string

subsection \<open>Python built-ins used by the simulator\<close>

type_synonym py_dict = "(int \<times> int) list"

text \<open>\<^verbatim>\<open>k in d\<close>\<close>

definition dict_contains :: "py_dict \<Rightarrow> int \<Rightarrow> bool" where
  "dict_contains d k = (k \<in> set (map fst d))"

text \<open>\<^verbatim>\<open>d.get(k)\<close>\<close>

definition dict_get :: "py_dict \<Rightarrow> int \<Rightarrow> int option" where
  "dict_get d k = map_of d k"

text \<open>\<^verbatim>\<open>d[k] = v\<close>: an existing key keeps its place, a new key goes last.\<close>

fun dict_set :: "py_dict \<Rightarrow> int \<Rightarrow> int \<Rightarrow> py_dict" where
  "dict_set [] k v = [(k, v)]"
| "dict_set (p # ps) k v = (if fst p = k then (k, v) # ps else p # dict_set ps k v)"

text \<open>\<^verbatim>\<open>del d[k]\<close>: raises \<^verbatim>\<open>KeyError\<close> when the key is missing.\<close>

definition dict_del :: "py_dict \<Rightarrow> int \<Rightarrow> py_error + py_dict" where
  "dict_del d k =
     (if dict_contains d k then Inr (filter (\<lambda>p. fst p \<noteq> k) d) else Inl KeyError)"

text \<open>
  \<^verbatim>\<open>min(d, key=d.get)\<close> and \<^verbatim>\<open>max(d, key=d.get)\<close>: the first key, in iteration
  order, whose value is the least (greatest); \<^verbatim>\<open>ValueError\<close> on an empty dictionary.
  The accumulator is the best entry seen so far; it is replaced only by a strictly
  better one, as the built-ins do.
\<close>

fun min_from :: "int \<times> int \<Rightarrow> py_dict \<Rightarrow> int" where
  "min_from best [] = fst best"
| "min_from best (p # ps) = (if snd p < snd best then min_from p ps else min_from best ps)"

fun max_from :: "int \<times> int \<Rightarrow> py_dict \<Rightarrow> int" where
  "max_from best [] = fst best"
| "max_from best (p # ps) = (if snd p > snd best then max_from p ps else max_from best ps)"

definition py_min_key :: "py_dict \<Rightarrow> py_error + int" where
  "py_min_key d =
     (case d of [] \<Rightarrow> Inl (ValueError ''min() arg is an empty sequence'')
      | p # ps \<Rightarrow> Inr (min_from p ps))"

definition py_max_key :: "py_dict \<Rightarrow> py_error + int" where
  "py_max_key d =
     (case d of [] \<Rightarrow> Inl (ValueError ''max() arg is an empty sequence'')
      | p # ps \<Rightarrow> Inr (max_from p ps))"

text \<open>
  \<^verbatim>\<open>xs[i]\<close> on a list: a negative index counts from the end, and an index outside
  \<open>[-len, len)\<close> raises \<^verbatim>\<open>IndexError\<close>. The result is the position read.
\<close>

definition py_index :: "'a list \<Rightarrow> int \<Rightarrow> py_error + nat" where
  "py_index xs i =
     (let n = int (length xs); j = (if i < 0 then i + n else i)
      in if 0 \<le> j \<and> j < n then Inr (nat j) else Inl IndexError)"

text \<open>\<^verbatim>\<open>a << n\<close> and \<^verbatim>\<open>a >> n\<close>: a negative count raises \<^verbatim>\<open>ValueError\<close>.\<close>

definition py_lshift :: "int \<Rightarrow> int \<Rightarrow> py_error + int" where
  "py_lshift a n =
     (if n < 0 then Inl (ValueError ''negative shift count'') else Inr (push_bit (nat n) a))"

definition py_rshift :: "int \<Rightarrow> int \<Rightarrow> py_error + int" where
  "py_rshift a n =
     (if n < 0 then Inl (ValueError ''negative shift count'') else Inr (drop_bit (nat n) a))"

text \<open>
  \<^verbatim>\<open>int(math.log2(x))\<close> for an integer \<open>x\<close>: \<^verbatim>\<open>ValueError\<close> when \<open>x \<le> 0\<close>. The
  model is the exact floor of the binary logarithm. The source goes through a float;
  the two agree on every power of two, which is where the theorems below use it.
\<close>

fun floor_log2 :: "nat \<Rightarrow> nat" where
  "floor_log2 n = (if n \<le> 1 then 0 else Suc (floor_log2 (n div 2)))"

declare floor_log2.simps [simp del]

definition py_int_log2 :: "int \<Rightarrow> py_error + int" where
  "py_int_log2 x =
     (if x \<le> 0 then Inl (ValueError ''math domain error'')
      else Inr (int (floor_log2 (nat x))))"

text \<open>
  \<^verbatim>\<open>int(s, 16)\<close> on an ASCII string: blanks around the literal are skipped, then an
  optional sign, an optional \<^verbatim>\<open>0x\<close>/\<^verbatim>\<open>0X\<close> prefix (which may be followed by one
  underscore), then hexadecimal digits with single underscores between digits. Anything
  else raises \<^verbatim>\<open>ValueError\<close>.
\<close>

definition py_isspace :: "char \<Rightarrow> bool" where
  "py_isspace c = (c \<in> set [CHR 0x09, CHR 0x0A, CHR 0x0B, CHR 0x0C, CHR 0x0D, CHR 0x20])"

definition hex_digit_value :: "char \<Rightarrow> int option" where
  "hex_digit_value c =
     (let n = of_char c :: nat in
      if 48 \<le> n \<and> n \<le> 57 then Some (int n - 48)
      else if 97 \<le> n \<and> n \<le> 102 then Some (int n - 87)
      else if 65 \<le> n \<and> n \<le> 70 then Some (int n - 55)
      else None)"

text \<open>
  The digit scan: \<open>prev\<close> tells whether the previous character was an underscore,
  \<open>acc\<close> is the value so far and \<open>cnt\<close> the number of digits read. It stops at the
  first character that is neither a digit nor an underscore and returns the rest.
\<close>

fun scan_digits :: "bool \<Rightarrow> int \<Rightarrow> nat \<Rightarrow> string \<Rightarrow> (int \<times> nat \<times> string) option" where
  "scan_digits prev acc cnt [] = (if prev then None else Some (acc, cnt, []))"
| "scan_digits prev acc cnt (c # cs) =
     (if c = CHR ''_'' then (if prev then None else scan_digits True acc cnt cs)
      else (case hex_digit_value c of
              Some d \<Rightarrow> scan_digits False (16 * acc + d) (Suc cnt) cs
            | None \<Rightarrow> (if prev then None else Some (acc, cnt, c # cs))))"

definition invalid_literal :: py_error where
  "invalid_literal = ValueError ''invalid literal for int() with base 16''"

definition py_int16 :: "string \<Rightarrow> py_error + int" where
  "py_int16 s =
     (let s1 = dropWhile py_isspace s;
          neg = (case s1 of c # _ \<Rightarrow> c = CHR ''-'' | [] \<Rightarrow> False);
          s2 = (case s1 of c # cs \<Rightarrow> (if c = CHR ''+'' \<or> c = CHR ''-'' then cs else s1)
                | [] \<Rightarrow> s1);
          s3 = (case s2 of
                  c # d # cs \<Rightarrow>
                    (if c = CHR ''0'' \<and> (d = CHR ''x'' \<or> d = CHR ''X'')
                     then (case cs of e # es \<Rightarrow> (if e = CHR ''_'' then es else cs) | [] \<Rightarrow> cs)
                     else s2)
                | _ \<Rightarrow> s2)
      in case s3 of
           [] \<Rightarrow> Inl invalid_literal
         | c # _ \<Rightarrow>
             if c = CHR ''_'' then Inl invalid_literal
             else (case scan_digits False 0 0 s3 of
                     None \<Rightarrow> Inl invalid_literal
                   | Some (v, cnt, rest) \<Rightarrow>
                       if cnt = 0 \<or> dropWhile py_isspace rest \<noteq> [] then Inl invalid_literal
                       else Inr (if neg then - v else v)))"

subsection \<open>The simulator object\<close>

record CacheSimulator =
  address_space :: int
  block_size :: int
  num_blocks :: int
  association :: int
  replacement_policy :: string
  cache :: "py_dict list"
  lru_tracker :: "py_dict list"
  access_counter :: int

text \<open>
  \<^verbatim>\<open>__init__\<close>: the five arguments are stored as they come. The two lists hold
  \<^verbatim>\<open>num_blocks // association\<close> empty dictionaries each (\<^verbatim>\<open>range\<close> of a negative
  number is empty); the floor division raises \<^verbatim>\<open>ZeroDivisionError\<close> when
  \<^verbatim>\<open>association\<close> is 0. Nothing else is checked.
\<close>

definition init ::
  "int \<Rightarrow> int \<Rightarrow> int \<Rightarrow> int \<Rightarrow> string \<Rightarrow> py_error + CacheSimulator" where
  "init address_space' block_size' num_blocks' association' replacement_policy' =
     (if association' = 0 then Inl ZeroDivisionError
      else Inr \<lparr> address_space = address_space',
                 block_size = block_size',
                 num_blocks = num_blocks',
                 association = association',
                 replacement_policy = replacement_policy',
                 cache = replicate (nat (num_blocks' div association')) [],
                 lru_tracker = replicate (nat (num_blocks' div association')) [],
                 access_counter = 0 \<rparr>)"

subsection \<open>Address decomposition\<close>

text \<open>
  \<^verbatim>\<open>parse_address\<close>: a leading \<^verbatim>\<open>x\<close> is removed, the rest is read as a hexadecimal
  integer, and the three fields are cut out with shifts and masks, in the order of the
  source, so that the first exception raised is the source's.
\<close>

definition strip_x :: "string \<Rightarrow> string" where
  "strip_x address =
     (case address of c # cs \<Rightarrow> (if c = CHR ''x'' then cs else address) | [] \<Rightarrow> address)"

definition parse_address :: "CacheSimulator \<Rightarrow> string \<Rightarrow> py_error + (int \<times> int \<times> int)" where
  "parse_address self address =
     (let address1 = strip_x address
      in case py_int16 address1 of Inl e \<Rightarrow> Inl e | Inr a \<Rightarrow>
         (case py_int_log2 (block_size self) of Inl e \<Rightarrow> Inl e | Inr block_offset_bits \<Rightarrow>
         (case py_int_log2 (int (length (cache self))) of Inl e \<Rightarrow> Inl e | Inr index_bits \<Rightarrow>
         (let tag_bits = address_space self - index_bits - block_offset_bits
          in case py_lshift 1 block_offset_bits of Inl e \<Rightarrow> Inl e | Inr m1 \<Rightarrow>
             (let block_offset = a AND (m1 - 1)
              in case py_rshift a block_offset_bits of Inl e \<Rightarrow> Inl e | Inr a1 \<Rightarrow>
                 (case py_lshift 1 index_bits of Inl e \<Rightarrow> Inl e | Inr m2 \<Rightarrow>
                 (let index = a1 AND (m2 - 1)
                  in case py_rshift a (block_offset_bits + index_bits) of Inl e \<Rightarrow> Inl e | Inr a2 \<Rightarrow>
                     (case py_lshift 1 tag_bits of Inl e \<Rightarrow> Inl e | Inr m3 \<Rightarrow>
                        Inr (a2 AND (m3 - 1), index, block_offset)))))))))"

text \<open>
  The inverse formula of the specification:
  \<^verbatim>\<open>(tag << (index_bits + offset_bits)) | (index << offset_bits) | offset\<close>.
\<close>

definition reassemble :: "nat \<Rightarrow> nat \<Rightarrow> int \<times> int \<times> int \<Rightarrow> int" where
  "reassemble index_bits offset_bits f =
     (case f of (tag, index, offset) \<Rightarrow>
        push_bit (index_bits + offset_bits) tag OR push_bit offset_bits index OR offset)"

subsection \<open>Access, recency stamping and replacement\<close>

text \<open>
  A method that mutates the object returns the object it leaves behind in both cases:
  \<open>Inl (e, self')\<close> when it raises \<open>e\<close>, \<open>Inr (r, self')\<close> when it returns \<open>r\<close>
  (\<open>Inr self'\<close> for a method that returns nothing). A dictionary is mutated in place,
  which is an update of the list at the position the index denotes.
\<close>

text \<open>
  \<^verbatim>\<open>update_tracker\<close>: the counter is incremented first, then the new value is stored
  under the tag in the tracker of the set.
\<close>

definition update_tracker ::
  "CacheSimulator \<Rightarrow> int \<Rightarrow> int \<Rightarrow> (py_error \<times> CacheSimulator) + CacheSimulator" where
  "update_tracker self index tag =
     (let self1 = self\<lparr>access_counter := access_counter self + 1\<rparr>
      in case py_index (lru_tracker self1) index of
           Inl e \<Rightarrow> Inl (e, self1)
         | Inr i \<Rightarrow>
             Inr (self1\<lparr>lru_tracker :=
                    (lru_tracker self1)[i := dict_set (lru_tracker self1 ! i) tag
                                                (access_counter self1)]\<rparr>))"

text \<open>
  The victim of \<^verbatim>\<open>replace_entry\<close>: the string comparisons run in the order of the
  source, and only a name that matches reads the tracker.
\<close>

definition choose_victim :: "CacheSimulator \<Rightarrow> int \<Rightarrow> py_error + int" where
  "choose_victim self index =
     (if replacement_policy self = ''LRU'' then
        (case py_index (lru_tracker self) index of
           Inl e \<Rightarrow> Inl e | Inr i \<Rightarrow> py_min_key (lru_tracker self ! i))
      else if replacement_policy self = ''MRU'' then
        (case py_index (lru_tracker self) index of
           Inl e \<Rightarrow> Inl e | Inr i \<Rightarrow> py_max_key (lru_tracker self ! i))
      else if replacement_policy self = ''LOOKAHEAD'' then
        (case py_index (lru_tracker self) index of
           Inl e \<Rightarrow> Inl e | Inr i \<Rightarrow> py_min_key (lru_tracker self ! i))
      else Inl (ValueError ''Invalid replacement policy''))"

text \<open>
  \<^verbatim>\<open>replace_entry\<close>: the victim is deleted from the cache dictionary and from the
  tracker, then the new tag is stored in the cache dictionary with the current
  (not yet incremented) counter.
\<close>

definition replace_entry ::
  "CacheSimulator \<Rightarrow> int \<Rightarrow> int \<Rightarrow> (py_error \<times> CacheSimulator) + CacheSimulator" where
  "replace_entry self index tag =
     (case choose_victim self index of
        Inl e \<Rightarrow> Inl (e, self)
      | Inr least_used_tag \<Rightarrow>
     (case py_index (cache self) index of
        Inl e \<Rightarrow> Inl (e, self)
      | Inr i \<Rightarrow>
     (case dict_del (cache self ! i) least_used_tag of
        Inl e \<Rightarrow> Inl (e, self)
      | Inr d \<Rightarrow>
     (let self1 = self\<lparr>cache := (cache self)[i := d]\<rparr>
      in case py_index (lru_tracker self1) index of
        Inl e \<Rightarrow> Inl (e, self1)
      | Inr j \<Rightarrow>
     (case dict_del (lru_tracker self1 ! j) least_used_tag of
        Inl e \<Rightarrow> Inl (e, self1)
      | Inr t \<Rightarrow>
     (let self2 = self1\<lparr>lru_tracker := (lru_tracker self1)[j := t]\<rparr>
      in case py_index (cache self2) index of
        Inl e \<Rightarrow> Inl (e, self2)
      | Inr k \<Rightarrow>
          Inr (self2\<lparr>cache :=
                 (cache self2)[k := dict_set (cache self2 ! k) tag
                                      (access_counter self2)]\<rparr>)))))))"

text \<open>
  \<^verbatim>\<open>access_cache\<close>: both lists are indexed first; a resident tag is a hit, any other
  tag is a miss that either takes a free line or replaces an entry; every access that
  gets that far ends with \<^verbatim>\<open>update_tracker\<close>.
\<close>

definition access_cache ::
  "CacheSimulator \<Rightarrow> int \<Rightarrow> int \<Rightarrow> (py_error \<times> CacheSimulator) + (string \<times> CacheSimulator)" where
  "access_cache self tag index =
     (case py_index (cache self) index of
        Inl e \<Rightarrow> Inl (e, self)
      | Inr i \<Rightarrow>
     (case py_index (lru_tracker self) index of
        Inl e \<Rightarrow> Inl (e, self)
      | Inr j \<Rightarrow>
     (let set_cache = cache self ! i
      in if dict_contains set_cache tag then
           (case update_tracker self index tag of
              Inl e \<Rightarrow> Inl e
            | Inr self1 \<Rightarrow> Inr (''H'', self1))
         else
           (case (if int (length set_cache) < association self
                  then Inr (self\<lparr>cache :=
                              (cache self)[i := dict_set set_cache tag (access_counter self)]\<rparr>)
                  else replace_entry self index tag) of
              Inl e \<Rightarrow> Inl e
            | Inr self1 \<Rightarrow>
                (case update_tracker self1 index tag of
                   Inl e \<Rightarrow> Inl e
                 | Inr self2 \<Rightarrow> Inr (''M'', self2))))))"

text \<open>
  A caller's sequence of \<^verbatim>\<open>access_cache\<close> calls, each given as \<open>(tag, index)\<close>, as
  the loop of \<^verbatim>\<open>simulate\<close> makes them: the results are collected in order, and the
  first exception ends the run.
\<close>

fun run ::
  "CacheSimulator \<Rightarrow> (int \<times> int) list \<Rightarrow>
     (py_error \<times> CacheSimulator) + (string list \<times> CacheSimulator)" where
  "run self [] = Inr ([], self)"
| "run self (a # rest) =
     (case access_cache self (fst a) (snd a) of
        Inl e \<Rightarrow> Inl e
      | Inr (r, self1) \<Rightarrow>
          (case run self1 rest of
             Inl e \<Rightarrow> Inl e
           | Inr (rs, self2) \<Rightarrow> Inr (r # rs, self2)))"

subsection \<open>Auxiliary notions for the proofs\<close>

text \<open>
  The two ways a list of dictionaries changes: a store into the dictionary at position
  \<open>i\<close>, and the deletion of a key from it.
\<close>

definition store :: "py_dict list \<Rightarrow> nat \<Rightarrow> int \<Rightarrow> int \<Rightarrow> py_dict list" where
  "store ds i k v = ds[i := dict_set (ds ! i) k v]"

definition evict :: "py_dict list \<Rightarrow> nat \<Rightarrow> int \<Rightarrow> py_dict list" where
  "evict ds i k = ds[i := filter (\<lambda>p. fst p \<noteq> k) (ds ! i)]"

text \<open>
  The cache dictionaries and the tracker dictionaries hold the same keys, set by set and
  in the same order.
\<close>

definition keys_agree :: "CacheSimulator \<Rightarrow> bool" where
  "keys_agree s = (map (map fst) (cache s) = map (map fst) (lru_tracker s))"

text \<open>
  The keys of every dictionary are pairwise different; the recencies in the trackers are
  pairwise different, also across sets, and none is above the counter. These three
  properties together hold in every state an access can reach.
\<close>

definition keys_distinct :: "py_dict list \<Rightarrow> bool" where
  "keys_distinct ds = (\<forall>d \<in> set ds. distinct (map fst d))"

definition stamps_ok :: "py_dict list \<Rightarrow> int \<Rightarrow> bool" where
  "stamps_ok tr c =
     (\<forall>i < length tr. \<forall>p \<in> set (tr ! i).
        snd p \<le> c \<and>
        (\<forall>j < length tr. \<forall>q \<in> set (tr ! j). snd p = snd q \<longrightarrow> i = j \<and> p = q))"

definition consistent :: "CacheSimulator \<Rightarrow> bool" where
  "consistent s = (keys_agree s \<and> keys_distinct (cache s) \<and>
           stamps_ok (lru_tracker s) (access_counter s))"

text \<open>No set holds more lines than the associativity.\<close>

definition within_capacity :: "CacheSimulator \<Rightarrow> bool" where
  "within_capacity s = (\<forall>d \<in> set (cache s). int (length d) \<le> association s)"

text \<open>
  The recency of a tag in a set, \<^verbatim>\<open>self.lru_tracker[index].get(tag)\<close>, and the list of
  the recencies that the accesses of a run give to the tags they touch, each read right
  after its access.
\<close>

definition recency :: "CacheSimulator \<Rightarrow> int \<Rightarrow> int \<Rightarrow> int option" where
  "recency self index tag =
     (case py_index (lru_tracker self) index of
        Inl e \<Rightarrow> None
      | Inr i \<Rightarrow> dict_get (lru_tracker self ! i) tag)"

fun recencies :: "CacheSimulator \<Rightarrow> (int \<times> int) list \<Rightarrow> int option list" where
  "recencies self [] = []"
| "recencies self (a # rest) =
     (case access_cache self (fst a) (snd a) of
        Inl e \<Rightarrow> []
      | Inr (r, self1) \<Rightarrow> recency self1 (snd a) (fst a) # recencies self1 rest)"

text \<open>The same object under the policy name \<^verbatim>\<open>"LOOKAHEAD"\<close>.\<close>

definition lookahead :: "CacheSimulator \<Rightarrow> CacheSimulator" where
  "lookahead s = s\<lparr>replacement_policy := ''LOOKAHEAD''\<rparr>"

text \<open>
  Two objects that differ at most in the values stored in the cache dictionaries: the
  same keys in the same order in every cache dictionary, and every other field equal.
  Two outcomes (an exception or a result, each with the object left behind) agree up to
  these values when the exception or result is the same and the objects are so related.
\<close>

definition same_but_cache_values :: "CacheSimulator \<Rightarrow> CacheSimulator \<Rightarrow> bool" where
  "same_but_cache_values s t =
     (t = s\<lparr>cache := cache t\<rparr> \<and> map (map fst) (cache t) = map (map fst) (cache s))"

definition agree_up_to_values :: "'a \<times> CacheSimulator \<Rightarrow> 'a \<times> CacheSimulator \<Rightarrow> bool" where
  "agree_up_to_values x y = (fst x = fst y \<and> same_but_cache_values (snd x) (snd y))"

text \<open>
  The format \<^verbatim>\<open>{n:X}\<close> that \<^verbatim>\<open>simulate\<close> prints indices and tags with, for
  \<open>n \<ge> 0\<close>: upper-case hexadecimal digits, most significant first, no prefix.
\<close>

definition hex_char :: "nat \<Rightarrow> char" where
  "hex_char d = (if d < 10 then char_of (48 + d) else char_of (55 + d))"

fun format_X :: "nat \<Rightarrow> string" where
  "format_X n = (if n < 16 then [hex_char n] else format_X (n div 16) @ [hex_char (n mod 16)])"

declare format_X.simps [simp del]

subsection \<open>Example objects\<close>

text \<open>The object built by \<^verbatim>\<open>CacheSimulator(16, 16, 64, 2, "LRU")\<close>: 32 sets of 2 lines.\<close>

definition sim16 :: CacheSimulator where
  "sim16 = \<lparr> address_space = 16, block_size = 16, num_blocks = 64, association = 2,
      replacement_policy = ''LRU'', cache = replicate 32 [], lru_tracker = replicate 32 [],
      access_counter = 0 \<rparr>"

text \<open>
  \<^verbatim>\<open>CacheSimulator(8, 1, 2, 2, "LRU")\<close>, one set of two lines, and the same object
  after the accesses to the tags 1, 2 and 3 of set 0.
\<close>

definition small0 :: CacheSimulator where
  "small0 = \<lparr> address_space = 8, block_size = 1, num_blocks = 2, association = 2,
      replacement_policy = ''LRU'', cache = [[]], lru_tracker = [[]], access_counter = 0 \<rparr>"

definition small3 :: CacheSimulator where
  "small3 = \<lparr> address_space = 8, block_size = 1, num_blocks = 2, association = 2,
      replacement_policy = ''LRU'', cache = [[(2, 1), (3, 2)]],
      lru_tracker = [[(2, 2), (3, 3)]], access_counter = 3 \<rparr>"

text \<open>\<^verbatim>\<open>CacheSimulator(8, 1, 2, 2, "MRU")\<close> and its state after two accesses to set 0.\<close>

definition mru0 :: CacheSimulator where
  "mru0 = \<lparr> address_space = 8, block_size = 1, num_blocks = 2, association = 2,
      replacement_policy = ''MRU'', cache = [[]], lru_tracker = [[]], access_counter = 0 \<rparr>"

definition mru2 :: CacheSimulator where
  "mru2 = \<lparr> address_space = 8, block_size = 1, num_blocks = 2, association = 2,
      replacement_policy = ''MRU'', cache = [[(1, 0), (2, 1)]],
      lru_tracker = [[(1, 1), (2, 2)]], access_counter = 2 \<rparr>"

text \<open>The LRU object \<open>small0\<close> after the accesses to the tags 1, 2 and again 1 of set 0.\<close>

definition small_121 :: CacheSimulator where
  "small_121 = \<lparr> address_space = 8, block_size = 1, num_blocks = 2, association = 2,
      replacement_policy = ''LRU'', cache = [[(1, 0), (2, 1)]],
      lru_tracker = [[(1, 3), (2, 2)]], access_counter = 3 \<rparr>"

text \<open>
  \<^verbatim>\<open>CacheSimulator(8, 3, 5, 2, "FIFO")\<close>: a block size and a block count that are not
  powers of two, an associativity that does not divide the block count, and a policy
  name that \<^verbatim>\<open>replace_entry\<close> does not know; and the same object after two accesses
  to set 0.
\<close>

definition odd0 :: CacheSimulator where
  "odd0 = \<lparr> address_space = 8, block_size = 3, num_blocks = 5, association = 2,
      replacement_policy = ''FIFO'', cache = [[], []], lru_tracker = [[], []],
      access_counter = 0 \<rparr>"

definition odd2 :: CacheSimulator where
  "odd2 = \<lparr> address_space = 8, block_size = 3, num_blocks = 5, association = 2,
      replacement_policy = ''FIFO'', cache = [[(1, 0), (2, 1)], []],
      lru_tracker = [[(1, 1), (2, 2)], []], access_counter = 2 \<rparr>"

text \<open>\<^verbatim>\<open>CacheSimulator(8, 1, 4, 2, "LRU")\<close>: two sets of two lines.\<close>

definition two0 :: CacheSimulator where
  "two0 = \<lparr> address_space = 8, block_size = 1, num_blocks = 4, association = 2,
      replacement_policy = ''LRU'', cache = [[], []], lru_tracker = [[], []],
      access_counter = 0 \<rparr>"

section \<open>Properties\<close>

subsection \<open>Address decomposition\<close>

lemma floor_log2_pow [simp]: "floor_log2 (2 ^ k) = k"
proof (induction k)
  case 0
  show ?case by (simp add: floor_log2.simps)
next
  case (Suc k)
  have "(0::nat) < 2 ^ k" by simp
  then have "\<not> 2 * (2::nat) ^ k \<le> 1" by linarith
  then show ?case using Suc by (subst floor_log2.simps) simp
qed

lemma shl_one_minus_one: "push_bit k (1::int) - 1 = mask k"
  by (simp add: mask_eq_exp_minus_1)

lemma fields_bits:
  fixes a :: int
  shows "push_bit (ib + ob) (drop_bit (ob + ib) a AND (push_bit tb 1 - 1))
         OR push_bit ob (drop_bit ob a AND (push_bit ib 1 - 1))
         OR (a AND (push_bit ob 1 - 1)) = take_bit (tb + ib + ob) a"
  unfolding shl_one_minus_one
proof (rule bit_eqI)
  fix n
  consider "n < ob" | "ob \<le> n" "n < ob + ib" | "ob + ib \<le> n"
    by linarith
  then show "bit (push_bit (ib + ob) (drop_bit (ob + ib) a AND mask tb)
         OR push_bit ob (drop_bit ob a AND mask ib)
         OR (a AND mask ob)) n = bit (take_bit (tb + ib + ob) a) n"
  proof cases
    case 1
    then show ?thesis by (auto simp add: bit_simps)
  next
    case 2
    then show ?thesis by (auto simp add: bit_simps)
  next
    case 3
    then have "ob + ib + (n - (ib + ob)) = n" by simp
    with 3 show ?thesis by (auto simp add: bit_simps)
  qed
qed

lemma and_mask_bounds:
  fixes a :: int
  shows "0 \<le> a AND (push_bit n 1 - 1)" "a AND (push_bit n 1 - 1) < 2 ^ n"
  unfolding shl_one_minus_one by (simp_all flip: take_bit_eq_mask)

text \<open>
  With a block size \<open>2 ^ ob\<close>, \<open>2 ^ ib\<close> sets and a tag width that is not negative,
  \<^verbatim>\<open>parse_address\<close> raises nothing on a string that \<^verbatim>\<open>int(_, 16)\<close> accepts, and
  its three results are these bit fields of the value \<open>a\<close> of the string.
\<close>

lemma parse_address_fields:
  assumes bs: "block_size self = 2 ^ ob"
    and sc: "int (length (cache self)) = 2 ^ ib"
    and tb: "int ib + int ob \<le> address_space self"
    and lit: "py_int16 (strip_x s) = Inr a"
  shows "parse_address self s =
           Inr (drop_bit (ob + ib) a AND (push_bit (nat (address_space self) - ib - ob) 1 - 1),
                drop_bit ob a AND (push_bit ib 1 - 1),
                a AND (push_bit ob 1 - 1))"
proof -
  have l1: "py_int_log2 (block_size self) = Inr (int ob)"
    unfolding bs py_int_log2_def by (simp add: nat_power_eq)
  have l2: "py_int_log2 (int (length (cache self))) = Inr (int ib)"
    unfolding sc py_int_log2_def by (simp add: nat_power_eq)
  have n: "nat (address_space self - int ib - int ob) = nat (address_space self) - ib - ob"
    using tb by linarith
  have nn: "\<not> address_space self - int ib - int ob < 0" "nat (int ob + int ib) = ob + ib"
    using tb by linarith+
  show ?thesis
    unfolding parse_address_def Let_def lit l1 l2 py_lshift_def py_rshift_def
    using n nn by simp
qed

text \<open>
  Claim C1. For a geometry whose block size and set count are powers of two and whose
  tag width is not negative, and for an address string of value \<open>a\<close>,
  \<^verbatim>\<open>parse_address\<close> returns \<open>(tag, index, offset)\<close> with \<open>offset < block_size\<close> and
  \<open>index < set_count\<close> (and a tag of \<open>tag_bits\<close> bits); reassembling the three fields
  and masking to \<open>address_space\<close> bits gives \<open>a\<close> truncated to \<open>address_space\<close>
  bits, which is \<open>a\<close> itself when \<open>0 \<le> a < 2 ^ address_space\<close>. Every \<open>a \<ge> 0\<close>
  is the value of such a string (\<open>every_address_has_text\<close> below).
\<close>

theorem parse_address_roundtrip:
  assumes bs: "block_size self = 2 ^ ob"
    and sc: "int (length (cache self)) = 2 ^ ib"
    and tb: "int ib + int ob \<le> address_space self"
    and lit: "py_int16 (strip_x s) = Inr a"
  shows "\<exists>tag index offset.
           parse_address self s = Inr (tag, index, offset) \<and>
           0 \<le> offset \<and> offset < block_size self \<and>
           0 \<le> index \<and> index < int (length (cache self)) \<and>
           0 \<le> tag \<and> tag < 2 ^ (nat (address_space self) - ib - ob) \<and>
           take_bit (nat (address_space self)) (reassemble ib ob (tag, index, offset))
             = take_bit (nat (address_space self)) a \<and>
           (0 \<le> a \<and> a < 2 ^ nat (address_space self) \<longrightarrow>
              take_bit (nat (address_space self)) (reassemble ib ob (tag, index, offset)) = a)"
proof -
  define tbits where "tbits = nat (address_space self) - ib - ob"
  have w: "nat (address_space self) = tbits + ib + ob"
    using tb unfolding tbits_def by linarith
  have r: "reassemble ib ob (drop_bit (ob + ib) a AND (push_bit tbits 1 - 1),
                drop_bit ob a AND (push_bit ib 1 - 1),
                a AND (push_bit ob 1 - 1)) = take_bit (nat (address_space self)) a"
    unfolding reassemble_def w by (simp only: prod.case fields_bits)
  have t: "0 \<le> a \<and> a < 2 ^ nat (address_space self) \<longrightarrow>
             take_bit (nat (address_space self)) a = a"
    by (simp add: take_bit_int_eq_self)
  show ?thesis
    using parse_address_fields [OF assms] r t and_mask_bounds [of a ob]
      and_mask_bounds [of "drop_bit ob a" ib] and_mask_bounds [of "drop_bit (ob + ib) a" tbits]
    unfolding tbits_def [symmetric] bs sc by simp
qed

theorem parse_address_roundtrip_witness:
  "init 16 16 64 2 ''LRU'' = Inr sim16 \<and>
   parse_address sim16 ''x1A2B'' = Inr (13, 2, 11) \<and>
   reassemble 5 4 (13, 2, 11) = 6699"
proof -
  have a: "py_int16 (strip_x ''x1A2B'') = Inr 6699"
    by (simp add: py_int16_def strip_x_def py_isspace_def hex_digit_value_def
        invalid_literal_def)
  have p: "parse_address sim16 ''x1A2B'' = Inr (13, 2, 11)"
    using parse_address_fields [of sim16 4 5 "''x1A2B''" 6699] a
    by (simp add: sim16_def)
  have "block_size sim16 = 2 ^ 4" "int (length (cache sim16)) = 2 ^ 5"
    "int 5 + int 4 \<le> address_space sim16"
    by (simp_all add: sim16_def)
  from parse_address_roundtrip [OF this a] p
  show ?thesis by (simp add: init_def sim16_def reassemble_def)
qed

subsection \<open>Dictionaries and the three outcomes of an access\<close>

lemma keys_dict_set:
  "map fst (dict_set d k v) = (if k \<in> set (map fst d) then map fst d else map fst d @ [k])"
  by (induction d) auto

lemma py_index_range: "py_index xs i = Inr n \<Longrightarrow> n < length xs"
  by (auto simp: py_index_def Let_def split: if_splits)

lemma py_index_length:
  "length ys = length xs \<Longrightarrow> py_index xs i = Inr n \<Longrightarrow> py_index ys i = Inr n"
  by (simp add: py_index_def)

lemma keys_agree_length: "keys_agree s \<Longrightarrow> length (lru_tracker s) = length (cache s)"
  unfolding keys_agree_def by (metis length_map)

lemma keys_agree_nth:
  "keys_agree s \<Longrightarrow> i < length (cache s) \<Longrightarrow> map fst (lru_tracker s ! i) = map fst (cache s ! i)"
  unfolding keys_agree_def by (metis length_map nth_map)

lemma min_from_entry:
  "\<exists>e \<in> set (best # ps). fst e = min_from best ps \<and> (\<forall>p \<in> set (best # ps). snd e \<le> snd p)"
proof (induction ps arbitrary: best)
  case Nil
  show ?case by simp
next
  case (Cons q ps)
  show ?case
  proof (cases "snd q < snd best")
    case True
    from Cons [of q] obtain e where "e \<in> set (q # ps)" "fst e = min_from q ps"
      "\<forall>p \<in> set (q # ps). snd e \<le> snd p" by blast
    with True show ?thesis by (intro bexI [of _ e]) auto
  next
    case False
    from Cons [of best] obtain e where "e \<in> set (best # ps)" "fst e = min_from best ps"
      "\<forall>p \<in> set (best # ps). snd e \<le> snd p" by blast
    with False show ?thesis by (intro bexI [of _ e]) auto
  qed
qed

lemma max_from_entry:
  "\<exists>e \<in> set (best # ps). fst e = max_from best ps \<and> (\<forall>p \<in> set (best # ps). snd p \<le> snd e)"
proof (induction ps arbitrary: best)
  case Nil
  show ?case by simp
next
  case (Cons q ps)
  show ?case
  proof (cases "snd q > snd best")
    case True
    from Cons [of q] obtain e where "e \<in> set (q # ps)" "fst e = max_from q ps"
      "\<forall>p \<in> set (q # ps). snd p \<le> snd e" by blast
    with True show ?thesis by (intro bexI [of _ e]) auto
  next
    case False
    from Cons [of best] obtain e where "e \<in> set (best # ps)" "fst e = max_from best ps"
      "\<forall>p \<in> set (best # ps). snd p \<le> snd e" by blast
    with False show ?thesis by (intro bexI [of _ e]) auto
  qed
qed

lemma update_tracker_ok:
  "py_index (lru_tracker s) index = Inr i \<Longrightarrow>
   update_tracker s index tag =
     Inr (s\<lparr>access_counter := access_counter s + 1,
            lru_tracker := store (lru_tracker s) i tag (access_counter s + 1)\<rparr>)"
  by (simp add: update_tracker_def Let_def store_def)

lemma access_cache_index_error:
  "py_index (cache s) index = Inl e \<Longrightarrow> access_cache s tag index = Inl (e, s)"
  by (simp add: access_cache_def)

lemma access_cache_hit:
  assumes "py_index (cache s) index = Inr i" "length (lru_tracker s) = length (cache s)"
    "dict_contains (cache s ! i) tag"
  shows "access_cache s tag index =
     Inr (''H'', s\<lparr>access_counter := access_counter s + 1,
            lru_tracker := store (lru_tracker s) i tag (access_counter s + 1)\<rparr>)"
proof -
  have t: "py_index (lru_tracker s) index = Inr i"
    using assms(1,2) by (rule py_index_length [rotated])
  show ?thesis
    using assms(1,3) t by (simp add: access_cache_def update_tracker_ok)
qed

lemma access_cache_fill:
  assumes "py_index (cache s) index = Inr i" "length (lru_tracker s) = length (cache s)"
    "\<not> dict_contains (cache s ! i) tag" "int (length (cache s ! i)) < association s"
  shows "access_cache s tag index =
     Inr (''M'', s\<lparr>cache := store (cache s) i tag (access_counter s),
            access_counter := access_counter s + 1,
            lru_tracker := store (lru_tracker s) i tag (access_counter s + 1)\<rparr>)"
proof -
  have t: "py_index (lru_tracker s) index = Inr i"
    using assms(1,2) by (rule py_index_length [rotated])
  show ?thesis
    using assms(1,3,4) t by (simp add: access_cache_def update_tracker_ok store_def)
qed

lemma replace_entry_ok:
  assumes i: "py_index (cache s) index = Inr i" and l: "length (lru_tracker s) = length (cache s)"
    and v: "choose_victim s index = Inr v"
    and c: "dict_contains (cache s ! i) v" and t: "dict_contains (lru_tracker s ! i) v"
  shows "replace_entry s index tag =
     Inr (s\<lparr>cache := store (evict (cache s) i v) i tag (access_counter s),
            lru_tracker := evict (lru_tracker s) i v\<rparr>)"
proof -
  have j: "py_index (lru_tracker s) index = Inr i"
    using i l by (rule py_index_length [rotated])
  have n: "i < length (cache s)" "i < length (lru_tracker s)"
    using i l py_index_range by fastforce+
  have k: "py_index ((cache s)[i := d]) index = Inr i" for d
    using i by (simp add: py_index_def)
  show ?thesis
    using i j v c t n k
    by (simp add: replace_entry_def dict_del_def Let_def store_def evict_def)
qed

lemma access_cache_evict:
  assumes i: "py_index (cache s) index = Inr i" and l: "length (lru_tracker s) = length (cache s)"
    and m: "\<not> dict_contains (cache s ! i) tag" "\<not> int (length (cache s ! i)) < association s"
    and v: "choose_victim s index = Inr v"
    and c: "dict_contains (cache s ! i) v" and t: "dict_contains (lru_tracker s ! i) v"
  shows "access_cache s tag index =
     Inr (''M'', s\<lparr>cache := store (evict (cache s) i v) i tag (access_counter s),
            access_counter := access_counter s + 1,
            lru_tracker := store (evict (lru_tracker s) i v) i tag (access_counter s + 1)\<rparr>)"
proof -
  have j: "py_index (lru_tracker s) index = Inr i"
    using i l by (rule py_index_length [rotated])
  have j': "py_index (evict (lru_tracker s) i v) index = Inr i"
    using j by (simp add: py_index_def evict_def)
  show ?thesis
    using i j m replace_entry_ok [OF i l v c t, of tag] j'
    by (simp add: access_cache_def update_tracker_ok)
qed

lemma access_cache_victim_error:
  assumes i: "py_index (cache s) index = Inr i" and l: "length (lru_tracker s) = length (cache s)"
    and m: "\<not> dict_contains (cache s ! i) tag" "\<not> int (length (cache s ! i)) < association s"
    and v: "choose_victim s index = Inl e"
  shows "access_cache s tag index = Inl (e, s)"
proof -
  have j: "py_index (lru_tracker s) index = Inr i"
    using i l by (rule py_index_length [rotated])
  show ?thesis
    using i j m v by (simp add: access_cache_def replace_entry_def)
qed

lemma choose_victim_resident:
  assumes "choose_victim s index = Inr v" "py_index (lru_tracker s) index = Inr i"
  shows "dict_contains (lru_tracker s ! i) v"
proof -
  have "v \<in> fst ` set (lru_tracker s ! i)"
  proof (cases "lru_tracker s ! i")
    case Nil
    with assms show ?thesis
      by (simp add: choose_victim_def py_min_key_def py_max_key_def split: if_splits)
  next
    case (Cons p ps)
    with assms have "v = min_from p ps \<or> v = max_from p ps"
      by (simp add: choose_victim_def py_min_key_def py_max_key_def split: if_splits)
    with min_from_entry [of p ps] max_from_entry [of p ps] Cons show ?thesis
      by (metis imageI)
  qed
  then show ?thesis by (simp add: dict_contains_def)
qed

lemma dict_contains_keys: "map fst d = map fst d' \<Longrightarrow> dict_contains d k = dict_contains d' k"
  by (simp add: dict_contains_def)

lemma access_cache_cases [consumes 1, case_names index_error hit fill victim_error evict]:
  assumes ka: "keys_agree s"
  obtains
    e where "py_index (cache s) index = Inl e" "access_cache s tag index = Inl (e, s)"
  | i where "py_index (cache s) index = Inr i" "i < length (cache s)"
      "dict_contains (cache s ! i) tag"
      "access_cache s tag index =
         Inr (''H'', s\<lparr>access_counter := access_counter s + 1,
                lru_tracker := store (lru_tracker s) i tag (access_counter s + 1)\<rparr>)"
  | i where "py_index (cache s) index = Inr i" "i < length (cache s)"
      "\<not> dict_contains (cache s ! i) tag" "int (length (cache s ! i)) < association s"
      "access_cache s tag index =
         Inr (''M'', s\<lparr>cache := store (cache s) i tag (access_counter s),
                access_counter := access_counter s + 1,
                lru_tracker := store (lru_tracker s) i tag (access_counter s + 1)\<rparr>)"
  | i e where "py_index (cache s) index = Inr i" "i < length (cache s)"
      "\<not> dict_contains (cache s ! i) tag" "\<not> int (length (cache s ! i)) < association s"
      "choose_victim s index = Inl e" "access_cache s tag index = Inl (e, s)"
  | i v where "py_index (cache s) index = Inr i" "i < length (cache s)"
      "\<not> dict_contains (cache s ! i) tag" "\<not> int (length (cache s ! i)) < association s"
      "choose_victim s index = Inr v" "dict_contains (cache s ! i) v"
      "access_cache s tag index =
         Inr (''M'', s\<lparr>cache := store (evict (cache s) i v) i tag (access_counter s),
                access_counter := access_counter s + 1,
                lru_tracker := store (evict (lru_tracker s) i v) i tag (access_counter s + 1)\<rparr>)"
proof -
  note l = keys_agree_length [OF ka]
  show ?thesis
  proof (cases "py_index (cache s) index")
    case (Inl e)
    then show ?thesis using that(1) access_cache_index_error by blast
  next
    case (Inr i)
    then have n: "i < length (cache s)" by (rule py_index_range)
    have j: "py_index (lru_tracker s) index = Inr i"
      using l Inr by (rule py_index_length)
    show ?thesis
    proof (cases "dict_contains (cache s ! i) tag")
      case True
      then show ?thesis using that(2) Inr n access_cache_hit [OF Inr l] by blast
    next
      case absent: False
      show ?thesis
      proof (cases "int (length (cache s ! i)) < association s")
        case True
        then show ?thesis using that(3) Inr n absent access_cache_fill [OF Inr l] by blast
      next
        case full: False
        show ?thesis
        proof (cases "choose_victim s index")
          case (Inl e)
          then show ?thesis
            using that(4) Inr n absent full access_cache_victim_error [OF Inr l] by blast
        next
          case v: (Inr v)
          have t: "dict_contains (lru_tracker s ! i) v"
            using v j by (rule choose_victim_resident)
          then have c: "dict_contains (cache s ! i) v"
            using keys_agree_nth [OF ka n] dict_contains_keys by blast
          show ?thesis
            using that(5) [OF Inr n absent full v c]
              access_cache_evict [OF Inr l absent full v c t] by blast
        qed
      qed
    qed
  qed
qed

lemma keys_store:
  "i < length ds \<Longrightarrow>
   map (map fst) (store ds i k v) =
     (map (map fst) ds)[i := (if k \<in> set (map (map fst) ds ! i) then map (map fst) ds ! i
                              else map (map fst) ds ! i @ [k])]"
  by (simp add: store_def map_update keys_dict_set)

lemma keys_store_resident:
  "i < length ds \<Longrightarrow> dict_contains (ds ! i) k \<Longrightarrow>
   map (map fst) (store ds i k v) = map (map fst) ds"
  by (simp add: store_def map_update keys_dict_set dict_contains_def list_update_same_conv)

lemma keys_evict:
  "i < length ds \<Longrightarrow>
   map (map fst) (evict ds i k) =
     (map (map fst) ds)[i := filter (\<lambda>x. x \<noteq> k) (map (map fst) ds ! i)]"
  by (simp add: evict_def map_update filter_map comp_def)

lemma length_store [simp]: "length (store ds i k v) = length ds"
  by (simp add: store_def)

lemma length_evict [simp]: "length (evict ds i k) = length ds"
  by (simp add: evict_def)

lemma entries_dict_set: "set (dict_set d k v) \<subseteq> insert (k, v) (set d)"
  by (induction d) auto

lemma keys_distinct_update:
  "keys_distinct ds \<Longrightarrow> distinct (map fst d) \<Longrightarrow> keys_distinct (ds[i := d])"
  unfolding keys_distinct_def using set_update_subset_insert [of ds i d] by auto

lemma keys_distinct_nth: "keys_distinct ds \<Longrightarrow> i < length ds \<Longrightarrow> distinct (map fst (ds ! i))"
  unfolding keys_distinct_def by simp

lemma distinct_keys_dict_set: "distinct (map fst d) \<Longrightarrow> distinct (map fst (dict_set d k v))"
  by (simp add: keys_dict_set)

lemma distinct_keys_filter: "distinct (map fst d) \<Longrightarrow> distinct (map fst (filter P d))"
  by (simp add: distinct_map_filter)

lemma keys_distinct_store: "keys_distinct ds \<Longrightarrow> i < length ds \<Longrightarrow> keys_distinct (store ds i k v)"
  unfolding store_def
  by (intro keys_distinct_update distinct_keys_dict_set keys_distinct_nth)

lemma keys_distinct_evict: "keys_distinct ds \<Longrightarrow> i < length ds \<Longrightarrow> keys_distinct (evict ds i k)"
  unfolding evict_def
  by (intro keys_distinct_update distinct_keys_filter keys_distinct_nth)

lemma stamps_ok_update:
  assumes ok: "stamps_ok tr c" and i: "i < length tr"
    and d: "set d \<subseteq> insert (k, c + 1) (set (tr ! i))"
  shows "stamps_ok (tr[i := d]) (c + 1)"
  unfolding stamps_ok_def
proof (intro allI impI ballI conjI)
  fix a p assume a: "a < length (tr[i := d])" and p: "p \<in> set (tr[i := d] ! a)"
  have old: "p = (k, c + 1) \<and> a = i \<or> p \<in> set (tr ! a)"
    using a p d i by (cases "a = i") auto
  then show "snd p \<le> c + 1"
    using ok a unfolding stamps_ok_def by fastforce
  fix b q assume b: "b < length (tr[i := d])" and q: "q \<in> set (tr[i := d] ! b)"
    and e: "snd p = snd q"
  have oldq: "q = (k, c + 1) \<and> b = i \<or> q \<in> set (tr ! b)"
    using b q d i by (cases "b = i") auto
  have le: "x \<in> set (tr ! m) \<Longrightarrow> m < length tr \<Longrightarrow> snd x \<le> c" for x m
    using ok unfolding stamps_ok_def by blast
  have inj: "x \<in> set (tr ! m) \<Longrightarrow> m < length tr \<Longrightarrow> y \<in> set (tr ! n) \<Longrightarrow> n < length tr
      \<Longrightarrow> snd x = snd y \<Longrightarrow> m = n \<and> x = y" for x y m n
    using ok unfolding stamps_ok_def by blast
  from old oldq show "a = b" "p = q"
    using e a b le [of p a] le [of q b] inj [of p a q b] by auto
qed

lemma stamps_ok_store:
  "stamps_ok tr c \<Longrightarrow> i < length tr \<Longrightarrow> stamps_ok (store tr i k (c + 1)) (c + 1)"
  unfolding store_def by (rule stamps_ok_update [where k = k]) (use entries_dict_set in auto)

lemma stamps_ok_evict_store:
  assumes "stamps_ok tr c" "i < length tr"
  shows "stamps_ok (store (evict tr i v) i k (c + 1)) (c + 1)"
proof -
  have "store (evict tr i v) i k (c + 1)
          = tr[i := dict_set (filter (\<lambda>p. fst p \<noteq> v) (tr ! i)) k (c + 1)]"
    using assms(2) by (simp add: store_def evict_def)
  moreover have "set (dict_set (filter (\<lambda>p. fst p \<noteq> v) (tr ! i)) k (c + 1))
          \<subseteq> insert (k, c + 1) (set (tr ! i))"
    using entries_dict_set [of "filter (\<lambda>p. fst p \<noteq> v) (tr ! i)" k "c + 1"] by auto
  ultimately show ?thesis using stamps_ok_update [OF assms] by simp
qed

lemma length_dict_set:
  "length (dict_set d k v) = (if dict_contains d k then length d else Suc (length d))"
  using arg_cong [OF keys_dict_set [of d k v], of length] by (simp add: dict_contains_def)

lemma length_filter_key:
  "dict_contains d k \<Longrightarrow> length (filter (\<lambda>p. fst p \<noteq> k) d) < length d"
  unfolding dict_contains_def by (auto intro: length_filter_less)

lemma access_cache_consistent:
  assumes w: "consistent s" and a: "access_cache s tag index = Inr (r, s')"
  shows "consistent s'"
proof -
  from w have ka: "keys_agree s" and kd: "keys_distinct (cache s)"
    and st: "stamps_ok (lru_tracker s) (access_counter s)"
    by (simp_all add: consistent_def)
  note l = keys_agree_length [OF ka]
  note eq = ka [unfolded keys_agree_def]
  from ka show ?thesis
  proof (cases rule: access_cache_cases [where tag = tag and index = index])
    case (index_error e)
    with a show ?thesis by simp
  next
    case (hit i)
    have "dict_contains (lru_tracker s ! i) tag"
      using hit(3) keys_agree_nth [OF ka hit(2)] dict_contains_keys by blast
    then have "keys_agree s'"
      using a hit l eq by (auto simp add: keys_agree_def keys_store_resident)
    moreover have "stamps_ok (lru_tracker s') (access_counter s')"
      using a hit l stamps_ok_store [OF st, of i tag] by auto
    ultimately show ?thesis using a hit kd by (auto simp add: consistent_def)
  next
    case (fill i)
    have "keys_agree s'"
      using a fill l eq by (auto simp add: keys_agree_def keys_store)
    moreover have "stamps_ok (lru_tracker s') (access_counter s')"
      using a fill l stamps_ok_store [OF st, of i tag] by auto
    moreover have "keys_distinct (cache s')"
      using a fill kd by (auto intro: keys_distinct_store)
    ultimately show ?thesis by (simp add: consistent_def)
  next
    case (victim_error i e)
    with a show ?thesis by simp
  next
    case (evict i v)
    have "keys_agree s'"
      using a evict l eq by (auto simp add: keys_agree_def keys_store keys_evict)
    moreover have "stamps_ok (lru_tracker s') (access_counter s')"
      using a evict l stamps_ok_evict_store [OF st, of i v tag] by auto
    moreover have "keys_distinct (cache s')"
      using a evict kd keys_distinct_store [OF keys_distinct_evict [OF kd evict(2), of v], of i tag]
      by auto
    ultimately show ?thesis by (simp add: consistent_def)
  qed
qed

lemma access_cache_error_state:
  assumes ka: "keys_agree s" and a: "access_cache s tag index = Inl (e, s')"
  shows "s' = s"
  using ka by (cases rule: access_cache_cases [where tag = tag and index = index]) (use a in auto)

lemma access_cache_frame:
  assumes ka: "keys_agree s" and a: "access_cache s tag index = Inr (r, s')"
  shows "address_space s' = address_space s \<and> block_size s' = block_size s \<and>
         num_blocks s' = num_blocks s \<and> association s' = association s \<and>
         replacement_policy s' = replacement_policy s \<and>
         length (cache s') = length (cache s) \<and>
         access_counter s' = access_counter s + 1"
  using ka by (cases rule: access_cache_cases [where tag = tag and index = index]) (use a in auto)

lemma within_capacity_update:
  "within_capacity s \<Longrightarrow> int (length d) \<le> association s \<Longrightarrow>
   within_capacity (s\<lparr>cache := (cache s)[i := d]\<rparr>)"
  unfolding within_capacity_def using set_update_subset_insert [of "cache s" i d] by auto

lemma access_cache_capacity:
  assumes ka: "keys_agree s" and wc: "within_capacity s"
    and a: "access_cache s tag index = Inr (r, s')"
  shows "within_capacity s'"
proof -
  have nth: "i < length (cache s) \<Longrightarrow> int (length (cache s ! i)) \<le> association s" for i
    using wc by (simp add: within_capacity_def)
  from ka show ?thesis
  proof (cases rule: access_cache_cases [where tag = tag and index = index])
    case (index_error e)
    with a show ?thesis by simp
  next
    case (hit i)
    with a wc show ?thesis by (auto simp add: within_capacity_def)
  next
    case (fill i)
    have "int (length (dict_set (cache s ! i) tag (access_counter s))) \<le> association s"
      using fill by (simp add: length_dict_set)
    from within_capacity_update [OF wc this, of i] a fill show ?thesis
      by (auto simp add: within_capacity_def store_def)
  next
    case (victim_error i e)
    with a show ?thesis by simp
  next
    case (evict i v)
    have "int (length (dict_set (filter (\<lambda>p. fst p \<noteq> v) (cache s ! i)) tag (access_counter s)))
            \<le> association s"
      using nth [OF evict(2)] length_filter_key [OF evict(6)]
      by (simp add: length_dict_set)
    from within_capacity_update [OF wc this, of i] a evict show ?thesis
      by (auto simp add: within_capacity_def store_def evict_def)
  qed
qed

lemma init_consistent: "init a b n k p = Inr s \<Longrightarrow> consistent s"
  by (auto simp add: init_def consistent_def keys_agree_def keys_distinct_def stamps_ok_def
      split: if_splits)

lemma init_capacity: "init a b n k p = Inr s \<Longrightarrow> 0 < k \<Longrightarrow> within_capacity s"
  by (auto simp add: init_def within_capacity_def split: if_splits)

lemma init_fields:
  "init a b n k p = Inr s \<Longrightarrow>
     address_space s = a \<and> block_size s = b \<and> num_blocks s = n \<and> association s = k \<and>
     replacement_policy s = p \<and> length (cache s) = nat (n div k) \<and> access_counter s = 0 \<and>
     k \<noteq> 0"
  by (auto simp add: init_def split: if_splits)

lemma run_consistent: "consistent s \<Longrightarrow> run s accs = Inr (rs, s') \<Longrightarrow> consistent s'"
proof (induction accs arbitrary: s rs)
  case Nil
  then show ?case by simp
next
  case (Cons a accs)
  from Cons.prems obtain r s1 rs1 where
    a: "access_cache s (fst a) (snd a) = Inr (r, s1)" and r: "run s1 accs = Inr (rs1, s')"
    by (auto split: sum.splits)
  have "consistent s1" using Cons.prems(1) a by (rule access_cache_consistent)
  then show ?case using r by (rule Cons.IH)
qed

lemma run_frame:
  "consistent s \<Longrightarrow> run s accs = Inr (rs, s') \<Longrightarrow>
     address_space s' = address_space s \<and> block_size s' = block_size s \<and>
     num_blocks s' = num_blocks s \<and> association s' = association s \<and>
     replacement_policy s' = replacement_policy s \<and>
     length (cache s') = length (cache s) \<and>
     access_counter s' = access_counter s + int (length accs) \<and>
     length rs = length accs"
proof (induction accs arbitrary: s rs)
  case Nil
  then show ?case by simp
next
  case (Cons a accs)
  from Cons.prems obtain r s1 rs1 where
    a: "access_cache s (fst a) (snd a) = Inr (r, s1)" and r: "run s1 accs = Inr (rs1, s')"
    and rs: "rs = r # rs1"
    by (auto split: sum.splits)
  have "consistent s1" using Cons.prems(1) a by (rule access_cache_consistent)
  from Cons.IH [OF this r] access_cache_frame [OF _ a] Cons.prems(1) rs
  show ?case by (simp add: consistent_def)
qed

lemma run_capacity:
  "consistent s \<Longrightarrow> within_capacity s \<Longrightarrow> run s accs = Inr (rs, s') \<Longrightarrow> within_capacity s'"
proof (induction accs arbitrary: s rs)
  case Nil
  then show ?case by simp
next
  case (Cons a accs)
  from Cons.prems obtain r s1 rs1 where
    a: "access_cache s (fst a) (snd a) = Inr (r, s1)" and r: "run s1 accs = Inr (rs1, s')"
    by (auto split: sum.splits)
  have "consistent s1" using Cons.prems(1) a by (rule access_cache_consistent)
  moreover have "within_capacity s1"
    using Cons.prems(1,2) a by (auto simp add: consistent_def intro: access_cache_capacity)
  ultimately show ?case using r by (rule Cons.IH)
qed

subsection \<open>Reachable states\<close>

lemmas exec_simps =
  access_cache_def update_tracker_def replace_entry_def choose_victim_def py_index_def
  py_min_key_def py_max_key_def dict_del_def dict_contains_def Let_def

lemma init_small0: "init 8 1 2 2 ''LRU'' = Inr small0"
  by (simp add: init_def small0_def)

lemma run_small3: "run small0 [(1, 0), (2, 0), (3, 0)] = Inr ([''M'', ''M'', ''M''], small3)"
  by (simp add: small0_def small3_def exec_simps)

lemma choose_victim_valid:
  assumes "replacement_policy s \<in> {''LRU'', ''MRU'', ''LOOKAHEAD''}"
    "py_index (lru_tracker s) index = Inr i" "lru_tracker s ! i \<noteq> []"
  shows "\<exists>v. choose_victim s index = Inr v"
  using assms
  by (cases "lru_tracker s ! i")
    (auto simp add: choose_victim_def py_min_key_def py_max_key_def)

text \<open>
  Claim C4. Starting from the object the constructor builds for a positive
  associativity, after any sequence of accesses every cache dictionary, and every
  tracker dictionary, holds at most \<open>association\<close> lines. (An access that raises
  leaves the object as it was, by \<open>access_cache_error_state\<close>, so the states of a
  run cut short by an exception are those of the accesses before it.)
\<close>

theorem capacity_bound:
  assumes "init a b n k p = Inr s0" and "0 < k" and "run s0 accs = Inr (rs, s)"
  shows "\<forall>i < length (cache s).
           int (length (cache s ! i)) \<le> k \<and> int (length (lru_tracker s ! i)) \<le> k"
proof (intro allI impI)
  fix i assume i: "i < length (cache s)"
  have c0: "consistent s0" using assms(1) by (rule init_consistent)
  have c: "consistent s" using c0 assms(3) by (rule run_consistent)
  have "within_capacity s0" using assms(1,2) by (rule init_capacity)
  with c0 have "within_capacity s" using assms(3) by (rule run_capacity)
  moreover have "association s = k"
    using run_frame [OF c0 assms(3)] init_fields [OF assms(1)] by simp
  ultimately have 1: "int (length (cache s ! i)) \<le> k"
    using i by (simp add: within_capacity_def)
  have "keys_agree s" using c by (simp add: consistent_def)
  from keys_agree_nth [OF this i] have "length (lru_tracker s ! i) = length (cache s ! i)"
    by (metis length_map)
  with 1 show "int (length (cache s ! i)) \<le> k \<and> int (length (lru_tracker s ! i)) \<le> k"
    by simp
qed

theorem capacity_bound_witness:
  "init 8 1 2 2 ''LRU'' = Inr small0 \<and>
   run small0 [(1, 0), (2, 0), (3, 0)] = Inr ([''M'', ''M'', ''M''], small3) \<and>
   length (cache small3) = 1 \<and>
   int (length (cache small3 ! 0)) \<le> 2 \<and> int (length (lru_tracker small3 ! 0)) \<le> 2"
proof -
  have "(0::int) < 2" by simp
  from capacity_bound [OF init_small0 this run_small3] init_small0 run_small3
  show ?thesis by (simp add: small3_def)
qed

text \<open>
  Claim C2. In every state reached from the constructor by a sequence of accesses, and
  for every index \<open>0 \<le> index < set_count\<close>, \<^verbatim>\<open>access_cache\<close> returns
  \<^verbatim>\<open>"H"\<close> exactly when the tag is a key of the cache dictionary of that set just
  before the access. With a positive associativity and one of the three policy names
  the access always returns, and it returns \<^verbatim>\<open>"M"\<close> when the tag is not resident.
\<close>

theorem hit_iff_resident:
  assumes "init a b n k p = Inr s0" and "run s0 accs = Inr (rs, s)"
    and "0 \<le> index" and "index < int (length (cache s))"
  shows "((\<exists>s'. access_cache s tag index = Inr (''H'', s'))
            \<longleftrightarrow> dict_contains (cache s ! nat index) tag) \<and>
         (0 < k \<and> p \<in> {''LRU'', ''MRU'', ''LOOKAHEAD''} \<longrightarrow>
            (\<exists>s'. access_cache s tag index =
               Inr (if dict_contains (cache s ! nat index) tag then ''H'' else ''M'', s')))"
proof -
  have c0: "consistent s0" using assms(1) by (rule init_consistent)
  have c: "consistent s" using c0 assms(2) by (rule run_consistent)
  then have ka: "keys_agree s" by (simp add: consistent_def)
  have fr: "association s = k" "replacement_policy s = p"
    using run_frame [OF c0 assms(2)] init_fields [OF assms(1)] by simp_all
  have ix: "py_index (cache s) index = Inr (nat index)"
    using assms(3,4) by (simp add: py_index_def)
  from ka show ?thesis
  proof (cases rule: access_cache_cases [where tag = tag and index = index])
    case (index_error e)
    with ix show ?thesis by simp
  next
    case (hit i)
    with ix show ?thesis by simp
  next
    case (fill i)
    with ix show ?thesis by simp
  next
    case (victim_error i e)
    have "\<not> (0 < k \<and> p \<in> {''LRU'', ''MRU'', ''LOOKAHEAD''})"
    proof
      assume v: "0 < k \<and> p \<in> {''LRU'', ''MRU'', ''LOOKAHEAD''}"
      with victim_error(4) fr have "cache s ! i \<noteq> []" by auto
      with keys_agree_nth [OF ka victim_error(2)] have "lru_tracker s ! i \<noteq> []" by auto
      moreover have "py_index (lru_tracker s) index = Inr i"
        using keys_agree_length [OF ka] victim_error(1) by (rule py_index_length)
      ultimately show False
        using choose_victim_valid [of s index i] v fr victim_error(5) by auto
    qed
    with victim_error ix show ?thesis by simp
  next
    case (evict i v)
    with ix show ?thesis by simp
  qed
qed

theorem hit_iff_resident_witness:
  "init 8 1 2 2 ''LRU'' = Inr small0 \<and>
   run small0 [(1, 0), (2, 0), (3, 0)] = Inr ([''M'', ''M'', ''M''], small3) \<and>
   dict_contains (cache small3 ! 0) 3 \<and>
   (\<exists>s'. access_cache small3 3 0 = Inr (''H'', s')) \<and>
   \<not> dict_contains (cache small3 ! 0) 1 \<and>
   (\<exists>s'. access_cache small3 1 0 = Inr (''M'', s'))"
proof -
  have r: "(0::int) \<le> 0" "(0::int) < int (length (cache small3))"
    by (simp_all add: small3_def)
  have d: "dict_contains (cache small3 ! 0) 3" "\<not> dict_contains (cache small3 ! 0) 1"
    by (simp_all add: small3_def dict_contains_def)
  from hit_iff_resident [OF init_small0 run_small3 r, of 3]
    hit_iff_resident [OF init_small0 run_small3 r, of 1] d init_small0 run_small3
  show ?thesis by simp
qed

subsection \<open>Eviction\<close>

lemma tracker_entry:
  assumes c: "consistent s" and i: "i < length (cache s)"
  shows "distinct (map fst (lru_tracker s ! i))"
  using c keys_agree_nth [of s i] keys_distinct_nth [of "cache s" i] i
  by (simp add: consistent_def)

lemma recency_unique:
  assumes c: "consistent s" and i: "i < length (cache s)"
    and p: "p \<in> set (lru_tracker s ! i)" and q: "q \<in> set (lru_tracker s ! i)"
    and e: "snd p = snd q"
  shows "p = q"
proof -
  have "stamps_ok (lru_tracker s) (access_counter s)" "length (lru_tracker s) = length (cache s)"
    using c keys_agree_length by (simp_all add: consistent_def)
  then have "\<forall>q \<in> set (lru_tracker s ! i). snd p = snd q \<longrightarrow> i = i \<and> p = q"
    using i p unfolding stamps_ok_def by simp
  then show ?thesis using q e by blast
qed

lemma victim_least_recent:
  assumes c: "consistent s" and i: "py_index (cache s) index = Inr i"
    and pol: "replacement_policy s = ''LRU'' \<or> replacement_policy s = ''LOOKAHEAD''"
    and ne: "cache s ! i \<noteq> []"
  shows "\<exists>v r. choose_victim s index = Inr v \<and> dict_get (lru_tracker s ! i) v = Some r \<and>
           (\<forall>t r'. t \<noteq> v \<and> dict_get (lru_tracker s ! i) t = Some r' \<longrightarrow> r < r')"
proof -
  have ka: "keys_agree s" using c by (simp add: consistent_def)
  have n: "i < length (cache s)" using i by (rule py_index_range)
  have j: "py_index (lru_tracker s) index = Inr i"
    using keys_agree_length [OF ka] i by (rule py_index_length)
  from ne keys_agree_nth [OF ka n] obtain p ps where tr: "lru_tracker s ! i = p # ps"
    by (cases "lru_tracker s ! i") auto
  from min_from_entry [of p ps] obtain e where e: "e \<in> set (p # ps)"
    "fst e = min_from p ps" "\<forall>q \<in> set (p # ps). snd e \<le> snd q" by blast
  have cv: "choose_victim s index = Inr (fst e)"
    using pol j tr e(2) by (auto simp add: choose_victim_def py_min_key_def)
  note d = tracker_entry [OF c n]
  have g: "dict_get (lru_tracker s ! i) (fst e) = Some (snd e)"
    using map_of_is_SomeI [OF d, of "fst e" "snd e"] e(1) tr by (simp add: dict_get_def)
  have "snd e < r'" if "t \<noteq> fst e" "dict_get (lru_tracker s ! i) t = Some r'" for t r'
  proof -
    from that(2) have m: "(t, r') \<in> set (lru_tracker s ! i)"
      by (simp add: dict_get_def map_of_SomeD)
    with e(3) tr have "snd e \<le> r'" by fastforce
    moreover have "snd e \<noteq> r'"
    proof
      assume "snd e = r'"
      moreover have "e \<in> set (lru_tracker s ! i)" using e(1) tr by simp
      ultimately have "e = (t, r')" using recency_unique [OF c n _ m, of e] by simp
      then have "fst e = t" by (metis fst_conv)
      with that(1) show False by simp
    qed
    ultimately show ?thesis by simp
  qed
  with cv g show ?thesis by blast
qed

lemma victim_most_recent:
  assumes c: "consistent s" and i: "py_index (cache s) index = Inr i"
    and pol: "replacement_policy s = ''MRU''"
    and ne: "cache s ! i \<noteq> []"
  shows "\<exists>v r. choose_victim s index = Inr v \<and> dict_get (lru_tracker s ! i) v = Some r \<and>
           (\<forall>t r'. t \<noteq> v \<and> dict_get (lru_tracker s ! i) t = Some r' \<longrightarrow> r' < r)"
proof -
  have ka: "keys_agree s" using c by (simp add: consistent_def)
  have n: "i < length (cache s)" using i by (rule py_index_range)
  have j: "py_index (lru_tracker s) index = Inr i"
    using keys_agree_length [OF ka] i by (rule py_index_length)
  from ne keys_agree_nth [OF ka n] obtain p ps where tr: "lru_tracker s ! i = p # ps"
    by (cases "lru_tracker s ! i") auto
  from max_from_entry [of p ps] obtain e where e: "e \<in> set (p # ps)"
    "fst e = max_from p ps" "\<forall>q \<in> set (p # ps). snd q \<le> snd e" by blast
  have cv: "choose_victim s index = Inr (fst e)"
    using pol j tr e(2) by (auto simp add: choose_victim_def py_max_key_def)
  note d = tracker_entry [OF c n]
  have g: "dict_get (lru_tracker s ! i) (fst e) = Some (snd e)"
    using map_of_is_SomeI [OF d, of "fst e" "snd e"] e(1) tr by (simp add: dict_get_def)
  have "r' < snd e" if "t \<noteq> fst e" "dict_get (lru_tracker s ! i) t = Some r'" for t r'
  proof -
    from that(2) have m: "(t, r') \<in> set (lru_tracker s ! i)"
      by (simp add: dict_get_def map_of_SomeD)
    with e(3) tr have "r' \<le> snd e" by fastforce
    moreover have "snd e \<noteq> r'"
    proof
      assume "snd e = r'"
      moreover have "e \<in> set (lru_tracker s ! i)" using e(1) tr by simp
      ultimately have "e = (t, r')" using recency_unique [OF c n _ m, of e] by simp
      then have "fst e = t" by (metis fst_conv)
      with that(1) show False by simp
    qed
    ultimately show ?thesis by simp
  qed
  with cv g show ?thesis by blast
qed

lemma keys_replace:
  assumes "i < length ds" "\<not> dict_contains (ds ! i) tag"
  shows "map fst (store (evict ds i v) i tag x ! i)
           = filter (\<lambda>t. t \<noteq> v) (map fst (ds ! i)) @ [tag]"
proof -
  have "store (evict ds i v) i tag x ! i = dict_set (filter (\<lambda>p. fst p \<noteq> v) (ds ! i)) tag x"
    using assms(1) by (simp add: store_def evict_def)
  moreover have "map fst (filter (\<lambda>p. fst p \<noteq> v) (ds ! i)) = filter (\<lambda>t. t \<noteq> v) (map fst (ds ! i))"
    by (simp add: filter_map comp_def)
  moreover have "tag \<notin> set (filter (\<lambda>t. t \<noteq> v) (map fst (ds ! i)))"
    using assms(2) by (simp add: dict_contains_def)
  ultimately show ?thesis by (simp only: keys_dict_set if_False)
qed

text \<open>
  What a miss on a full set does once the victim \<open>v\<close> is chosen: \<open>v\<close> leaves both
  dictionaries of the set and the new tag goes last.
\<close>

lemma full_miss_replaces:
  assumes c: "consistent s" and i: "py_index (cache s) index = Inr i"
    and m: "\<not> dict_contains (cache s ! i) tag" "\<not> int (length (cache s ! i)) < association s"
    and v: "choose_victim s index = Inr v"
  shows "\<exists>s'. access_cache s tag index = Inr (''M'', s') \<and>
           dict_contains (cache s ! i) v \<and> \<not> dict_contains (cache s' ! i) v \<and>
           map fst (cache s' ! i) = filter (\<lambda>t. t \<noteq> v) (map fst (cache s ! i)) @ [tag] \<and>
           map fst (lru_tracker s' ! i) = filter (\<lambda>t. t \<noteq> v) (map fst (cache s ! i)) @ [tag]"
proof -
  have ka: "keys_agree s" using c by (simp add: consistent_def)
  note l = keys_agree_length [OF ka]
  have n: "i < length (cache s)" using i by (rule py_index_range)
  have j: "py_index (lru_tracker s) index = Inr i"
    using l i by (rule py_index_length)
  have t: "dict_contains (lru_tracker s ! i) v"
    using v j by (rule choose_victim_resident)
  have kk: "map fst (lru_tracker s ! i) = map fst (cache s ! i)"
    using ka n by (rule keys_agree_nth)
  have cv: "dict_contains (cache s ! i) v"
    using t dict_contains_keys [OF kk] by blast
  have mt: "\<not> dict_contains (lru_tracker s ! i) tag"
    using m(1) dict_contains_keys [OF kk] by blast
  define s' where "s' = s\<lparr>cache := store (evict (cache s) i v) i tag (access_counter s),
                access_counter := access_counter s + 1,
                lru_tracker := store (evict (lru_tracker s) i v) i tag (access_counter s + 1)\<rparr>"
  have a: "access_cache s tag index = Inr (''M'', s')"
    unfolding s'_def using i l m v cv t by (rule access_cache_evict)
  have kc: "map fst (cache s' ! i) = filter (\<lambda>t. t \<noteq> v) (map fst (cache s ! i)) @ [tag]"
    using keys_replace [OF n m(1)] by (simp add: s'_def)
  have kt: "map fst (lru_tracker s' ! i) = filter (\<lambda>t. t \<noteq> v) (map fst (cache s ! i)) @ [tag]"
    using keys_replace [of i "lru_tracker s" tag v "access_counter s + 1"] n l mt kk
    by (simp add: s'_def)
  have vt: "v \<noteq> tag" using cv m(1) by auto
  have "\<not> dict_contains (cache s' ! i) v"
    unfolding dict_contains_def kc using vt by simp
  with a cv kc kt show ?thesis by blast
qed

text \<open>
  Claim C3. Under the LRU policy, in a state reached from the constructor, an access
  with a tag that is not resident in a set holding exactly \<open>association\<close> lines
  returns \<^verbatim>\<open>"M"\<close> and removes one resident tag \<open>v\<close>, and the recency of \<open>v\<close> in the
  tracker of the set is strictly below the recency of every other resident tag.
\<close>

theorem lru_evicts_least_recent:
  assumes "init a b n k ''LRU'' = Inr s0" and "run s0 accs = Inr (rs, s)"
    and "0 \<le> index" and "index < int (length (cache s))"
    and "\<not> dict_contains (cache s ! nat index) tag"
    and "int (length (cache s ! nat index)) = association s"
  shows "\<exists>v r s'.
           access_cache s tag index = Inr (''M'', s') \<and>
           dict_contains (cache s ! nat index) v \<and>
           \<not> dict_contains (cache s' ! nat index) v \<and>
           map fst (cache s' ! nat index)
             = filter (\<lambda>t. t \<noteq> v) (map fst (cache s ! nat index)) @ [tag] \<and>
           dict_get (lru_tracker s ! nat index) v = Some r \<and>
           (\<forall>t r'. t \<noteq> v \<and> dict_get (lru_tracker s ! nat index) t = Some r' \<longrightarrow> r < r')"
proof -
  have c0: "consistent s0" using assms(1) by (rule init_consistent)
  have c: "consistent s" using c0 assms(2) by (rule run_consistent)
  have fr: "association s = k" "replacement_policy s = ''LRU''" "k \<noteq> 0"
    using run_frame [OF c0 assms(2)] init_fields [OF assms(1)] by simp_all
  have ix: "py_index (cache s) index = Inr (nat index)"
    using assms(3,4) by (simp add: py_index_def)
  have ne: "cache s ! nat index \<noteq> []" using assms(6) fr by auto
  have full: "\<not> int (length (cache s ! nat index)) < association s"
    using assms(6) by simp
  have "\<exists>v r. choose_victim s index = Inr v \<and>
          dict_get (lru_tracker s ! nat index) v = Some r \<and>
          (\<forall>t r'. t \<noteq> v \<and> dict_get (lru_tracker s ! nat index) t = Some r' \<longrightarrow> r < r')"
    using c ix _ ne by (rule victim_least_recent) (simp add: fr)
  then obtain v r where
    v: "choose_victim s index = Inr v" "dict_get (lru_tracker s ! nat index) v = Some r"
      "\<forall>t r'. t \<noteq> v \<and> dict_get (lru_tracker s ! nat index) t = Some r' \<longrightarrow> r < r'"
    by blast
  from full_miss_replaces [OF c ix assms(5) full v(1)] obtain s' where
    "access_cache s tag index = Inr (''M'', s')" "dict_contains (cache s ! nat index) v"
    "\<not> dict_contains (cache s' ! nat index) v"
    "map fst (cache s' ! nat index)
       = filter (\<lambda>t. t \<noteq> v) (map fst (cache s ! nat index)) @ [tag]"
    by blast
  with v(2,3) show ?thesis by blast
qed

lemma run_small_121:
  "run small0 [(1, 0), (2, 0), (1, 0)] = Inr ([''M'', ''M'', ''H''], small_121)"
  by (simp add: small0_def small_121_def exec_simps)

theorem lru_evicts_least_recent_witness:
  "init 8 1 2 2 ''LRU'' = Inr small0 \<and>
   run small0 [(1, 0), (2, 0), (1, 0)] = Inr ([''M'', ''M'', ''H''], small_121) \<and>
   lru_tracker small_121 = [[(1, 3), (2, 2)]] \<and>
   access_cache small_121 3 0 =
     Inr (''M'', small_121\<lparr>cache := [[(1, 0), (3, 3)]], lru_tracker := [[(1, 3), (3, 4)]],
                            access_counter := 4\<rparr>)"
proof -
  have h: "(0::int) \<le> 0" "(0::int) < int (length (cache small_121))"
    "\<not> dict_contains (cache small_121 ! nat 0) 3"
    "int (length (cache small_121 ! nat 0)) = association small_121"
    by (simp_all add: small_121_def dict_contains_def)
  have a: "access_cache small_121 3 0 =
     Inr (''M'', small_121\<lparr>cache := [[(1, 0), (3, 3)]], lru_tracker := [[(1, 3), (3, 4)]],
                            access_counter := 4\<rparr>)"
    by (simp add: small_121_def exec_simps)
  have t: "lru_tracker small_121 = [[(1, 3), (2, 2)]]" by (simp add: small_121_def)
  from lru_evicts_least_recent [OF init_small0 run_small_121 h] init_small0 run_small_121 a t
  show ?thesis by blast
qed

text \<open>
  Claim C8. Under the MRU policy, in a state reached from the constructor, an access
  with a tag that is not resident in a set holding exactly \<open>association\<close> lines
  returns \<^verbatim>\<open>"M"\<close> and removes one resident tag \<open>v\<close>, and the recency of \<open>v\<close> in the
  tracker of the set is strictly above the recency of every other resident tag.
\<close>

theorem mru_evicts_most_recent:
  assumes "init a b n k ''MRU'' = Inr s0" and "run s0 accs = Inr (rs, s)"
    and "0 \<le> index" and "index < int (length (cache s))"
    and "\<not> dict_contains (cache s ! nat index) tag"
    and "int (length (cache s ! nat index)) = association s"
  shows "\<exists>v r s'.
           access_cache s tag index = Inr (''M'', s') \<and>
           dict_contains (cache s ! nat index) v \<and>
           \<not> dict_contains (cache s' ! nat index) v \<and>
           map fst (cache s' ! nat index)
             = filter (\<lambda>t. t \<noteq> v) (map fst (cache s ! nat index)) @ [tag] \<and>
           dict_get (lru_tracker s ! nat index) v = Some r \<and>
           (\<forall>t r'. t \<noteq> v \<and> dict_get (lru_tracker s ! nat index) t = Some r' \<longrightarrow> r' < r)"
proof -
  have c0: "consistent s0" using assms(1) by (rule init_consistent)
  have c: "consistent s" using c0 assms(2) by (rule run_consistent)
  have fr: "association s = k" "replacement_policy s = ''MRU''" "k \<noteq> 0"
    using run_frame [OF c0 assms(2)] init_fields [OF assms(1)] by simp_all
  have ix: "py_index (cache s) index = Inr (nat index)"
    using assms(3,4) by (simp add: py_index_def)
  have ne: "cache s ! nat index \<noteq> []" using assms(6) fr by auto
  have full: "\<not> int (length (cache s ! nat index)) < association s"
    using assms(6) by simp
  have "\<exists>v r. choose_victim s index = Inr v \<and>
          dict_get (lru_tracker s ! nat index) v = Some r \<and>
          (\<forall>t r'. t \<noteq> v \<and> dict_get (lru_tracker s ! nat index) t = Some r' \<longrightarrow> r' < r)"
    using c ix _ ne by (rule victim_most_recent) (simp add: fr)
  then obtain v r where
    v: "choose_victim s index = Inr v" "dict_get (lru_tracker s ! nat index) v = Some r"
      "\<forall>t r'. t \<noteq> v \<and> dict_get (lru_tracker s ! nat index) t = Some r' \<longrightarrow> r' < r"
    by blast
  from full_miss_replaces [OF c ix assms(5) full v(1)] obtain s' where
    "access_cache s tag index = Inr (''M'', s')" "dict_contains (cache s ! nat index) v"
    "\<not> dict_contains (cache s' ! nat index) v"
    "map fst (cache s' ! nat index)
       = filter (\<lambda>t. t \<noteq> v) (map fst (cache s ! nat index)) @ [tag]"
    by blast
  with v(2,3) show ?thesis by blast
qed

lemma init_mru0: "init 8 1 2 2 ''MRU'' = Inr mru0"
  by (simp add: init_def mru0_def)

lemma run_mru2: "run mru0 [(1, 0), (2, 0)] = Inr ([''M'', ''M''], mru2)"
  by (simp add: mru0_def mru2_def exec_simps)

theorem mru_evicts_most_recent_witness:
  "init 8 1 2 2 ''MRU'' = Inr mru0 \<and>
   run mru0 [(1, 0), (2, 0)] = Inr ([''M'', ''M''], mru2) \<and>
   lru_tracker mru2 = [[(1, 1), (2, 2)]] \<and>
   access_cache mru2 3 0 =
     Inr (''M'', mru2\<lparr>cache := [[(1, 0), (3, 2)]], lru_tracker := [[(1, 1), (3, 3)]],
                       access_counter := 3\<rparr>)"
proof -
  have h: "(0::int) \<le> 0" "(0::int) < int (length (cache mru2))"
    "\<not> dict_contains (cache mru2 ! nat 0) 3"
    "int (length (cache mru2 ! nat 0)) = association mru2"
    by (simp_all add: mru2_def dict_contains_def)
  have a: "access_cache mru2 3 0 =
     Inr (''M'', mru2\<lparr>cache := [[(1, 0), (3, 2)]], lru_tracker := [[(1, 1), (3, 3)]],
                       access_counter := 3\<rparr>)"
    by (simp add: mru2_def exec_simps)
  have t: "lru_tracker mru2 = [[(1, 1), (2, 2)]]" by (simp add: mru2_def)
  from mru_evicts_most_recent [OF init_mru0 run_mru2 h] init_mru0 run_mru2 a t
  show ?thesis by blast
qed

subsection \<open>The recency counter\<close>

lemma dict_get_set: "dict_get (dict_set d k v) k = Some v"
  by (induction d) (auto simp add: dict_get_def)

lemma recency_store:
  assumes "py_index tr index = Inr i"
  shows "recency (s\<lparr>lru_tracker := store tr i tag v\<rparr>) index tag = Some v"
proof -
  have "i < length tr" using assms by (rule py_index_range)
  moreover have "py_index (store tr i tag v) index = Inr i"
    using assms by (simp add: py_index_def)
  ultimately show ?thesis by (simp add: recency_def store_def dict_get_set)
qed

lemma access_cache_stamp:
  assumes ka: "keys_agree s" and a: "access_cache s tag index = Inr (r, s')"
  shows "access_counter s' = access_counter s + 1 \<and>
         recency s' index tag = Some (access_counter s + 1)"
proof -
  note l = keys_agree_length [OF ka]
  have j: "py_index (cache s) index = Inr i \<Longrightarrow> py_index (lru_tracker s) index = Inr i" for i
    using l by (rule py_index_length)
  have je: "py_index (cache s) index = Inr i \<Longrightarrow> py_index (evict (lru_tracker s) i v) index = Inr i"
    for i v
    using j [of i] by (simp add: py_index_def)
  from ka show ?thesis
  proof (cases rule: access_cache_cases [where tag = tag and index = index])
    case (index_error e)
    with a show ?thesis by simp
  next
    case (hit i)
    have "s' = (s\<lparr>access_counter := access_counter s + 1\<rparr>)
                 \<lparr>lru_tracker := store (lru_tracker s) i tag (access_counter s + 1)\<rparr>"
      using a hit(4) by simp
    then show ?thesis using recency_store [OF j [OF hit(1)]] by simp
  next
    case (fill i)
    have "s' = (s\<lparr>cache := store (cache s) i tag (access_counter s),
                   access_counter := access_counter s + 1\<rparr>)
                 \<lparr>lru_tracker := store (lru_tracker s) i tag (access_counter s + 1)\<rparr>"
      using a fill(5) by simp
    then show ?thesis using recency_store [OF j [OF fill(1)]] by simp
  next
    case (victim_error i e)
    with a show ?thesis by simp
  next
    case (evict i v)
    have "s' = (s\<lparr>cache := store (evict (cache s) i v) i tag (access_counter s),
                   access_counter := access_counter s + 1\<rparr>)
                 \<lparr>lru_tracker := store (evict (lru_tracker s) i v) i tag (access_counter s + 1)\<rparr>"
      using a evict(7) by simp
    then show ?thesis using recency_store [OF je [OF evict(1)]] by simp
  qed
qed

lemma upt_shift: "[1..<Suc (Suc m)] = 1 # map Suc [1..<Suc m]"
  by (simp add: upt_conv_Cons map_Suc_upt del: upt_Suc)

lemma run_recencies:
  "consistent s \<Longrightarrow> run s accs = Inr (rs, s') \<Longrightarrow>
   recencies s accs = map (\<lambda>j. Some (access_counter s + int j)) [1..<Suc (length accs)]"
proof (induction accs arbitrary: s rs)
  case Nil
  then show ?case by simp
next
  case (Cons a accs)
  from Cons.prems obtain r s1 rs1 where
    a: "access_cache s (fst a) (snd a) = Inr (r, s1)" and r: "run s1 accs = Inr (rs1, s')"
    by (auto split: sum.splits)
  have c1: "consistent s1" using Cons.prems(1) a by (rule access_cache_consistent)
  have ka: "keys_agree s" using Cons.prems(1) by (simp add: consistent_def)
  note st = access_cache_stamp [OF ka a]
  have "recencies s (a # accs) = Some (access_counter s + 1)
          # map (\<lambda>j. Some (access_counter s + 1 + int j)) [1..<Suc (length accs)]"
    using a st Cons.IH [OF c1 r] by simp
  also have "\<dots> = map (\<lambda>j. Some (access_counter s + int j)) [1..<Suc (Suc (length accs))]"
    unfolding upt_shift [of "length accs"] by (simp add: comp_def add.commute add.left_commute)
  finally show ?case by simp
qed

text \<open>
  Claim C5. Every access that returns, hit or miss, with or without eviction, increments
  the counter exactly once and stores the incremented value as the recency of the tag it
  touched. Hence in a run from the constructor the \<open>j\<close>-th access gives the recency
  \<open>j\<close>: the recencies of a run are \<open>1, 2, 3, \<dots>\<close>, strictly increasing and pairwise
  different, whatever sets the accesses go to.
\<close>

theorem recency_counter_stamps:
  assumes "init a b n k p = Inr s0" and "run s0 accs = Inr (rs, s)"
  shows "access_counter s = int (length accs) \<and>
         recencies s0 accs = map (\<lambda>j. Some (int j)) [1..<Suc (length accs)] \<and>
         distinct (recencies s0 accs) \<and>
         (\<forall>tag index r s'. access_cache s tag index = Inr (r, s') \<longrightarrow>
            access_counter s' = access_counter s + 1 \<and>
            recency s' index tag = Some (access_counter s'))"
proof -
  have c0: "consistent s0" using assms(1) by (rule init_consistent)
  have c: "consistent s" using c0 assms(2) by (rule run_consistent)
  then have ka: "keys_agree s" by (simp add: consistent_def)
  have z: "access_counter s0 = 0" using init_fields [OF assms(1)] by simp
  have 1: "access_counter s = int (length accs)"
    using run_frame [OF c0 assms(2)] z by simp
  have 2: "recencies s0 accs = map (\<lambda>j. Some (int j)) [1..<Suc (length accs)]"
    using run_recencies [OF c0 assms(2)] z by simp
  have "inj_on (\<lambda>j. Some (int j)) (set [1..<Suc (length accs)])"
    by (rule inj_onI) simp
  then have 3: "distinct (recencies s0 accs)"
    unfolding 2 by (simp add: distinct_map)
  have 4: "access_counter s' = access_counter s + 1 \<and>
           recency s' index tag = Some (access_counter s')"
    if "access_cache s tag index = Inr (r, s')" for tag index r s'
    using access_cache_stamp [OF ka that] by simp
  from 1 2 3 4 show ?thesis by blast
qed

theorem recency_counter_stamps_witness:
  "init 8 1 2 2 ''LRU'' = Inr small0 \<and>
   run small0 [(1, 0), (2, 0), (1, 0)] = Inr ([''M'', ''M'', ''H''], small_121) \<and>
   access_counter small_121 = 3 \<and>
   recencies small0 [(1, 0), (2, 0), (1, 0)] = [Some 1, Some 2, Some 3]"
proof -
  have "[1..<Suc (length [(1::int, 0::int), (2, 0), (1, 0)])] = [1, 2, 3]"
    by (simp add: upt_conv_Cons)
  with recency_counter_stamps [OF init_small0 run_small_121] init_small0 run_small_121
  show ?thesis by simp
qed

subsection \<open>LOOKAHEAD and LRU\<close>

lemma lookahead_fields [simp]:
  "cache (lookahead s) = cache s" "lru_tracker (lookahead s) = lru_tracker s"
  "access_counter (lookahead s) = access_counter s" "association (lookahead s) = association s"
  "replacement_policy (lookahead s) = ''LOOKAHEAD''"
  by (simp_all add: lookahead_def)

lemma lookahead_updates:
  "(lookahead s)\<lparr>cache := c\<rparr> = lookahead (s\<lparr>cache := c\<rparr>)"
  "(lookahead s)\<lparr>lru_tracker := t\<rparr> = lookahead (s\<lparr>lru_tracker := t\<rparr>)"
  "(lookahead s)\<lparr>access_counter := n\<rparr> = lookahead (s\<lparr>access_counter := n\<rparr>)"
  by (simp_all add: lookahead_def)

lemma choose_victim_lookahead:
  "replacement_policy s = ''LRU'' \<Longrightarrow> choose_victim (lookahead s) index = choose_victim s index"
  by (simp add: choose_victim_def split: sum.splits)

lemma update_tracker_lookahead:
  "update_tracker (lookahead s) index tag =
     map_sum (apsnd lookahead) lookahead (update_tracker s index tag)"
  by (simp add: update_tracker_def Let_def lookahead_updates split: sum.splits)

lemma replace_entry_lookahead:
  assumes "replacement_policy s = ''LRU''"
  shows "replace_entry (lookahead s) index tag =
     map_sum (apsnd lookahead) lookahead (replace_entry s index tag)"
  by (simp add: replace_entry_def Let_def lookahead_updates choose_victim_lookahead [OF assms]
      split: sum.splits)

lemma access_cache_lookahead:
  assumes "replacement_policy s = ''LRU''"
  shows "access_cache (lookahead s) tag index =
     map_sum (apsnd lookahead) (apsnd lookahead) (access_cache s tag index)"
proof (cases "py_index (cache s) index")
  case (Inl e)
  then show ?thesis by (simp add: access_cache_def)
next
  case i: (Inr i)
  show ?thesis
  proof (cases "py_index (lru_tracker s) index")
    case (Inl e)
    with i show ?thesis by (simp add: access_cache_def)
  next
    case j: (Inr j)
    show ?thesis
    proof (cases "dict_contains (cache s ! i) tag")
      case True
      with i j show ?thesis
        by (simp add: access_cache_def update_tracker_lookahead split: sum.splits)
    next
      case absent: False
      show ?thesis
      proof (cases "int (length (cache s ! i)) < association s")
        case True
        have "update_tracker (lookahead s\<lparr>cache := c\<rparr>) index tag =
                map_sum (apsnd lookahead) lookahead (update_tracker (s\<lparr>cache := c\<rparr>) index tag)"
          for c
          unfolding lookahead_updates by (rule update_tracker_lookahead)
        with i j absent True show ?thesis
          by (simp add: access_cache_def split: sum.splits)
      next
        case False
        with i j absent show ?thesis
          by (simp add: access_cache_def replace_entry_lookahead [OF assms]
              update_tracker_lookahead split: sum.splits)
      qed
    qed
  qed
qed

lemma access_cache_keeps_policy:
  "access_cache s tag index = Inr (r, s') \<Longrightarrow> replacement_policy s' = replacement_policy s"
  by (auto simp add: access_cache_def update_tracker_def replace_entry_def Let_def
      split: sum.splits if_splits)

lemma run_lookahead:
  "replacement_policy s = ''LRU'' \<Longrightarrow>
   run (lookahead s) accs = map_sum (apsnd lookahead) (apsnd lookahead) (run s accs)"
proof (induction accs arbitrary: s)
  case Nil
  then show ?case by simp
next
  case (Cons a accs)
  show ?case
  proof (cases "access_cache s (fst a) (snd a)")
    case (Inl e)
    then show ?thesis
      using access_cache_lookahead [OF Cons.prems, of "fst a" "snd a"] by simp
  next
    case (Inr x)
    obtain r s1 where x: "x = (r, s1)" by (cases x)
    have "replacement_policy s1 = ''LRU''"
      using Inr x Cons.prems access_cache_keeps_policy by fastforce
    from Cons.IH [OF this] Inr x show ?thesis
      using access_cache_lookahead [OF Cons.prems, of "fst a" "snd a"]
      by (cases "run s1 accs") auto
  qed
qed

text \<open>
  Claim C9. For every configuration, constructing with \<^verbatim>\<open>"LOOKAHEAD"\<close> raises
  exactly when constructing with \<^verbatim>\<open>"LRU"\<close> does, and on every sequence of accesses the
  two objects give the same results (or raise the same exception at the same access)
  and end in states that differ in the policy name only.
\<close>

theorem lookahead_is_lru:
  "init a b n k ''LOOKAHEAD'' = map_sum id lookahead (init a b n k ''LRU'') \<and>
   (\<forall>s0. init a b n k ''LRU'' = Inr s0 \<longrightarrow>
      run (lookahead s0) accs = map_sum (apsnd lookahead) (apsnd lookahead) (run s0 accs))"
proof -
  have "init a b n k ''LOOKAHEAD'' = map_sum id lookahead (init a b n k ''LRU'')"
    by (simp add: init_def lookahead_def)
  moreover have "run (lookahead s0) accs
      = map_sum (apsnd lookahead) (apsnd lookahead) (run s0 accs)"
    if "init a b n k ''LRU'' = Inr s0" for s0
    using init_fields [OF that] by (intro run_lookahead) simp
  ultimately show ?thesis by blast
qed

theorem lookahead_is_lru_witness:
  "init 8 1 2 2 ''LOOKAHEAD'' = Inr (lookahead small0) \<and>
   run (lookahead small0) [(1, 0), (2, 0), (3, 0)]
     = Inr ([''M'', ''M'', ''M''], lookahead small3) \<and>
   run small0 [(1, 0), (2, 0), (3, 0)] = Inr ([''M'', ''M'', ''M''], small3) \<and>
   cache (lookahead small3) = [[(2, 1), (3, 2)]]"
  using lookahead_is_lru [of 8 1 2 2 "[(1, 0), (2, 0), (3, 0)]"] init_small0 run_small3
  by (simp add: small3_def)

subsection \<open>The values stored in the cache dictionaries\<close>

lemma same_fields:
  assumes "same_but_cache_values s t"
  shows "lru_tracker t = lru_tracker s" "access_counter t = access_counter s"
    "association t = association s" "replacement_policy t = replacement_policy s"
    "length (cache t) = length (cache s)"
    "map (map fst) (cache t) = map (map fst) (cache s)"
proof -
  from assms have e: "t = s\<lparr>cache := cache t\<rparr>"
    and k: "map (map fst) (cache t) = map (map fst) (cache s)"
    by (simp_all add: same_but_cache_values_def)
  show "lru_tracker t = lru_tracker s" by (subst e) simp
  show "access_counter t = access_counter s" by (subst e) simp
  show "association t = association s" by (subst e) simp
  show "replacement_policy t = replacement_policy s" by (subst e) simp
  show "map (map fst) (cache t) = map (map fst) (cache s)" by (rule k)
  then show "length (cache t) = length (cache s)" by (metis length_map)
qed

lemma same_nth:
  assumes "same_but_cache_values s t" "i < length (cache s)"
  shows "map fst (cache t ! i) = map fst (cache s ! i)"
  using same_fields(5,6) [OF assms(1)] assms(2) by (metis nth_map)

lemma same_intro:
  assumes "same_but_cache_values s t" "map (map fst) c' = map (map fst) c"
  shows "same_but_cache_values (s\<lparr>cache := c, access_counter := n, lru_tracker := tr\<rparr>)
           (t\<lparr>cache := c', access_counter := n, lru_tracker := tr\<rparr>)"
proof -
  from assms(1) have e: "t = s\<lparr>cache := cache t\<rparr>"
    by (simp add: same_but_cache_values_def)
  have "t\<lparr>cache := c', access_counter := n, lru_tracker := tr\<rparr>
          = s\<lparr>cache := c', access_counter := n, lru_tracker := tr\<rparr>"
    by (subst e) simp
  with assms(2) show ?thesis by (simp add: same_but_cache_values_def)
qed

lemma same_choose_victim:
  assumes "same_but_cache_values s t"
  shows "choose_victim t index = choose_victim s index"
  using same_fields(1,4) [OF assms] by (simp add: choose_victim_def split: sum.splits)

lemma keys_store_cong:
  assumes "map (map fst) c' = map (map fst) c" "i < length c"
  shows "map (map fst) (store c' i k v') = map (map fst) (store c i k v)"
proof -
  have "i < length c'" using assms by (metis length_map)
  then show ?thesis using assms by (simp add: keys_store)
qed

lemma keys_evict_cong:
  assumes "map (map fst) c' = map (map fst) c" "i < length c"
  shows "map (map fst) (evict c' i k) = map (map fst) (evict c i k)"
proof -
  have "i < length c'" using assms by (metis length_map)
  then show ?thesis using assms by (simp add: keys_evict)
qed

lemma same_keys_agree:
  assumes "same_but_cache_values s t" "keys_agree s"
  shows "keys_agree t"
  using assms(2) same_fields(1,6) [OF assms(1)] by (simp add: keys_agree_def)

lemma access_cache_same:
  assumes ka: "keys_agree s" and sm: "same_but_cache_values s t"
  shows "rel_sum agree_up_to_values agree_up_to_values
           (access_cache s tag index) (access_cache t tag index)"
proof -
  note f = same_fields [OF sm]
  have kt: "keys_agree t" using sm ka by (rule same_keys_agree)
  note lt = keys_agree_length [OF kt]
  have ix: "py_index (cache t) index = py_index (cache s) index"
    using f(5) by (simp add: py_index_def)
  have dc: "dict_contains (cache t ! i) x = dict_contains (cache s ! i) x"
    if "i < length (cache s)" for i x
    using same_nth [OF sm that] by (rule dict_contains_keys)
  have ln: "length (cache t ! i) = length (cache s ! i)" if "i < length (cache s)" for i
    using same_nth [OF sm that] by (metis length_map)
  from ka show ?thesis
  proof (cases rule: access_cache_cases [where tag = tag and index = index])
    case (index_error e)
    then have "access_cache t tag index = Inl (e, t)"
      using ix by (intro access_cache_index_error) simp
    with index_error sm show ?thesis by (simp add: agree_up_to_values_def)
  next
    case (hit i)
    have "access_cache t tag index =
       Inr (''H'', t\<lparr>access_counter := access_counter t + 1,
              lru_tracker := store (lru_tracker t) i tag (access_counter t + 1)\<rparr>)"
      using hit(1,2,3) ix lt dc by (intro access_cache_hit) simp_all
    moreover have "same_but_cache_values
        (s\<lparr>cache := cache s, access_counter := access_counter s + 1,
           lru_tracker := store (lru_tracker s) i tag (access_counter s + 1)\<rparr>)
        (t\<lparr>cache := cache t, access_counter := access_counter s + 1,
           lru_tracker := store (lru_tracker s) i tag (access_counter s + 1)\<rparr>)"
      using sm f(6) by (rule same_intro)
    ultimately show ?thesis using hit(4) f(1,2) by (simp add: agree_up_to_values_def)
  next
    case (fill i)
    have "access_cache t tag index =
       Inr (''M'', t\<lparr>cache := store (cache t) i tag (access_counter t),
              access_counter := access_counter t + 1,
              lru_tracker := store (lru_tracker t) i tag (access_counter t + 1)\<rparr>)"
      using fill(1,2,3,4) ix lt dc ln f(3) by (intro access_cache_fill) simp_all
    moreover have "same_but_cache_values
        (s\<lparr>cache := store (cache s) i tag (access_counter s),
           access_counter := access_counter s + 1,
           lru_tracker := store (lru_tracker s) i tag (access_counter s + 1)\<rparr>)
        (t\<lparr>cache := store (cache t) i tag (access_counter s),
           access_counter := access_counter s + 1,
           lru_tracker := store (lru_tracker s) i tag (access_counter s + 1)\<rparr>)"
      using sm keys_store_cong [OF f(6) fill(2)] by (rule same_intro)
    ultimately show ?thesis using fill(5) f(1,2) by (simp add: agree_up_to_values_def)
  next
    case (victim_error i e)
    have "access_cache t tag index = Inl (e, t)"
      using victim_error(1,2,3,4,5) ix lt dc ln f(3) same_choose_victim [OF sm, of index]
      by (intro access_cache_victim_error [where i = i]) simp_all
    with victim_error sm show ?thesis by (simp add: agree_up_to_values_def)
  next
    case (evict i v)
    have tv: "dict_contains (lru_tracker t ! i) v"
      using evict(2,6) keys_agree_nth [OF ka evict(2)] f(1) dict_contains_keys by metis
    have "access_cache t tag index =
       Inr (''M'', t\<lparr>cache := store (evict (cache t) i v) i tag (access_counter t),
              access_counter := access_counter t + 1,
              lru_tracker := store (evict (lru_tracker t) i v) i tag (access_counter t + 1)\<rparr>)"
      using evict(1,2,3,4,5,6) ix lt dc ln f(3) same_choose_victim [OF sm, of index] tv
      by (intro access_cache_evict) simp_all
    moreover have "map (map fst) (store (evict (cache t) i v) i tag (access_counter s))
        = map (map fst) (store (evict (cache s) i v) i tag (access_counter s))"
      using keys_evict_cong [OF f(6) evict(2)] evict(2) by (intro keys_store_cong) simp_all
    then have "same_but_cache_values
        (s\<lparr>cache := store (evict (cache s) i v) i tag (access_counter s),
           access_counter := access_counter s + 1,
           lru_tracker := store (evict (lru_tracker s) i v) i tag (access_counter s + 1)\<rparr>)
        (t\<lparr>cache := store (evict (cache t) i v) i tag (access_counter s),
           access_counter := access_counter s + 1,
           lru_tracker := store (evict (lru_tracker s) i v) i tag (access_counter s + 1)\<rparr>)"
      using sm by (intro same_intro)
    ultimately show ?thesis using evict(7) f(1,2) by (simp add: agree_up_to_values_def)
  qed
qed

lemma run_same:
  "consistent s \<Longrightarrow> same_but_cache_values s t \<Longrightarrow>
   rel_sum agree_up_to_values agree_up_to_values (run s accs) (run t accs)"
proof (induction accs arbitrary: s t)
  case Nil
  then show ?case by (simp add: agree_up_to_values_def)
next
  case (Cons a accs)
  have ka: "keys_agree s" using Cons.prems(1) by (simp add: consistent_def)
  note step = access_cache_same [OF ka Cons.prems(2), of "fst a" "snd a"]
  show ?case
  proof (cases "access_cache s (fst a) (snd a)")
    case (Inl x)
    with step obtain y where "access_cache t (fst a) (snd a) = Inl y" "agree_up_to_values x y"
      by (cases "access_cache t (fst a) (snd a)") auto
    with Inl show ?thesis by simp
  next
    case (Inr x)
    with step obtain y where y: "access_cache t (fst a) (snd a) = Inr y" "agree_up_to_values x y"
      by (cases "access_cache t (fst a) (snd a)") auto
    obtain r s1 where x: "x = (r, s1)" by (cases x)
    obtain r' t1 where y': "y = (r', t1)" by (cases y)
    from y(2) x y' have rr: "r' = r" and sm: "same_but_cache_values s1 t1"
      by (simp_all add: agree_up_to_values_def)
    have c1: "consistent s1"
      using Cons.prems(1) Inr x access_cache_consistent by blast
    note ih = Cons.IH [OF c1 sm]
    show ?thesis
    proof (cases "run s1 accs")
      case l: (Inl u)
      with ih obtain w where "run t1 accs = Inl w" "agree_up_to_values u w"
        by (cases "run t1 accs") auto
      with l Inr x y(1) y' rr show ?thesis by simp
    next
      case r: (Inr u)
      with ih obtain w where w: "run t1 accs = Inr w" "agree_up_to_values u w"
        by (cases "run t1 accs") auto
      obtain rs s2 where u: "u = (rs, s2)" by (cases u)
      obtain rs' t2 where w': "w = (rs', t2)" by (cases w)
      from w(2) u w' have "rs' = rs" "same_but_cache_values s2 t2"
        by (simp_all add: agree_up_to_values_def)
      with r u w(1) w' Inr x y(1) y' rr show ?thesis
        by (simp add: agree_up_to_values_def)
    qed
  qed
qed

lemma dict_get_store:
  "i < length c \<Longrightarrow> dict_get (store c i k v ! i) k = Some v"
  by (simp add: store_def dict_get_set)

lemma access_cache_cache_values:
  assumes ka: "keys_agree s" and a: "access_cache s tag index = Inr (r, s')"
    and i: "py_index (cache s) index = Inr i"
  shows "(r = ''H'' \<longrightarrow> cache s' = cache s) \<and>
         (r = ''M'' \<longrightarrow> dict_get (cache s' ! i) tag = Some (access_counter s))"
  using ka
proof (cases rule: access_cache_cases [where tag = tag and index = index])
  case (index_error e)
  with a show ?thesis by simp
next
  case (hit j)
  with a show ?thesis by auto
next
  case (fill j)
  with a i dict_get_store [of i "cache s" tag "access_counter s"] show ?thesis by auto
next
  case (victim_error j e)
  with a show ?thesis by simp
next
  case (evict j v)
  with a i dict_get_store [of i "evict (cache s) i v" tag "access_counter s"]
  show ?thesis by auto
qed

text \<open>
  Claim C10. In every state reached from the constructor the cache dictionaries and the
  tracker dictionaries hold the same keys, set by set (even in the same order). The
  value stored in a cache dictionary is the counter before the increment, written on a
  miss and left alone on a hit. It is never read: an object that differs only in these
  values gives, on every further sequence of accesses, the same results and exceptions,
  the same trackers and the same keys, hence the same evictions.
\<close>

theorem cache_values_never_read:
  assumes "init a b n k p = Inr s0" and "run s0 accs = Inr (rs, s)"
  shows "map (map fst) (cache s) = map (map fst) (lru_tracker s) \<and>
         (\<forall>i < length (cache s).
            set (map fst (cache s ! i)) = set (map fst (lru_tracker s ! i))) \<and>
         (\<forall>tag index s'. access_cache s tag index = Inr (''H'', s') \<longrightarrow> cache s' = cache s) \<and>
         (\<forall>tag index i s'.
            py_index (cache s) index = Inr i \<and> access_cache s tag index = Inr (''M'', s') \<longrightarrow>
              dict_get (cache s' ! i) tag = Some (access_counter s) \<and>
              access_counter s' = access_counter s + 1) \<and>
         (\<forall>t more. same_but_cache_values s t \<longrightarrow>
            rel_sum agree_up_to_values agree_up_to_values (run s more) (run t more))"
proof -
  have c0: "consistent s0" using assms(1) by (rule init_consistent)
  have c: "consistent s" using c0 assms(2) by (rule run_consistent)
  then have ka: "keys_agree s" by (simp add: consistent_def)
  have 1: "map (map fst) (cache s) = map (map fst) (lru_tracker s)"
    using ka by (simp add: keys_agree_def)
  have 2: "set (map fst (cache s ! i)) = set (map fst (lru_tracker s ! i))"
    if "i < length (cache s)" for i
    using keys_agree_nth [OF ka that] by simp
  have 3: "cache s' = cache s" if "access_cache s tag index = Inr (''H'', s')" for tag index s'
  proof (cases "py_index (cache s) index")
    case (Inl e)
    with that show ?thesis by (simp add: access_cache_def)
  next
    case (Inr i)
    with access_cache_cache_values [OF ka that] show ?thesis by simp
  qed
  have 4: "dict_get (cache s' ! i) tag = Some (access_counter s) \<and>
           access_counter s' = access_counter s + 1"
    if "py_index (cache s) index = Inr i \<and> access_cache s tag index = Inr (''M'', s')"
    for tag index i s'
    using access_cache_cache_values [OF ka, of tag index "''M''" s' i]
      access_cache_frame [OF ka, of tag index "''M''" s'] that by simp
  have 5: "rel_sum agree_up_to_values agree_up_to_values (run s more) (run t more)"
    if "same_but_cache_values s t" for t more
    using c that by (rule run_same)
  from 1 2 3 4 5 show ?thesis by blast
qed

theorem cache_values_never_read_witness:
  "init 8 1 2 2 ''LRU'' = Inr small0 \<and>
   run small0 [(1, 0), (2, 0), (3, 0)] = Inr ([''M'', ''M'', ''M''], small3) \<and>
   map (map fst) (cache small3) = [[2, 3]] \<and>
   map (map fst) (lru_tracker small3) = [[2, 3]] \<and>
   same_but_cache_values small3 (small3\<lparr>cache := [[(2, 100), (3, - 7)]]\<rparr>) \<and>
   run small3 [(4, 0), (3, 0)] =
     Inr ([''M'', ''H''], small3\<lparr>cache := [[(3, 2), (4, 3)]],
            lru_tracker := [[(3, 5), (4, 4)]], access_counter := 5\<rparr>) \<and>
   run (small3\<lparr>cache := [[(2, 100), (3, - 7)]]\<rparr>) [(4, 0), (3, 0)] =
     Inr ([''M'', ''H''], small3\<lparr>cache := [[(3, - 7), (4, 3)]],
            lru_tracker := [[(3, 5), (4, 4)]], access_counter := 5\<rparr>)"
proof -
  have k: "map (map fst) (cache small3) = [[2, 3]]"
    "map (map fst) (lru_tracker small3) = [[2, 3]]"
    by (simp_all add: small3_def)
  have sm: "same_but_cache_values small3 (small3\<lparr>cache := [[(2, 100), (3, - 7)]]\<rparr>)"
    by (simp add: same_but_cache_values_def small3_def)
  have r1: "run small3 [(4, 0), (3, 0)] =
     Inr ([''M'', ''H''], small3\<lparr>cache := [[(3, 2), (4, 3)]],
            lru_tracker := [[(3, 5), (4, 4)]], access_counter := 5\<rparr>)"
    by (simp add: small3_def exec_simps)
  have r2: "run (small3\<lparr>cache := [[(2, 100), (3, - 7)]]\<rparr>) [(4, 0), (3, 0)] =
     Inr ([''M'', ''H''], small3\<lparr>cache := [[(3, - 7), (4, 3)]],
            lru_tracker := [[(3, 5), (4, 4)]], access_counter := 5\<rparr>)"
    by (simp add: small3_def exec_simps)
  from cache_values_never_read [OF init_small0 run_small3] init_small0 run_small3 k sm r1 r2
  show ?thesis by blast
qed

subsection \<open>What the constructor checks\<close>

lemma choose_victim_unknown:
  "replacement_policy s \<notin> {''LRU'', ''MRU'', ''LOOKAHEAD''} \<Longrightarrow>
   choose_victim s index = Inl (ValueError ''Invalid replacement policy'')"
  by (simp add: choose_victim_def)

text \<open>
  Claim C6 as stated does not hold: the constructor accepts a configuration that breaks
  every constraint, and the unknown policy name is reported by the third access.
\<close>

theorem init_accepts_invalid_configuration:
  "init 8 3 5 2 ''FIFO'' = Inr odd0 \<and>
   run odd0 [(1, 0), (2, 0)] = Inr ([''M'', ''M''], odd2) \<and>
   access_cache odd2 3 0 = Inl (ValueError ''Invalid replacement policy'', odd2)"
  by (simp add: init_def odd0_def odd2_def exec_simps eval_nat_numeral)

text \<open>
  Claim C6, amended. The constructor checks nothing: it raises only
  \<^verbatim>\<open>ZeroDivisionError\<close>, when the associativity is 0, and for every other
  configuration, whatever the block size, the block count and the policy name, it
  returns an object with \<^verbatim>\<open>num_blocks // association\<close> empty sets. A policy name
  other than the three known ones is reported per access: in a state reached from such
  an object, an access that misses on a full set raises
  \<^verbatim>\<open>ValueError("Invalid replacement policy")\<close> and leaves the object as it was, and
  every other access to an existing set returns.
\<close>

theorem init_checks_nothing:
  "init a b n k p =
     (if k = 0 then Inl ZeroDivisionError
      else Inr \<lparr> address_space = a, block_size = b, num_blocks = n, association = k,
                 replacement_policy = p, cache = replicate (nat (n div k)) [],
                 lru_tracker = replicate (nat (n div k)) [], access_counter = 0 \<rparr>) \<and>
   (\<forall>s0 accs rs s tag index i.
      init a b n k p = Inr s0 \<and> p \<notin> {''LRU'', ''MRU'', ''LOOKAHEAD''} \<and>
      run s0 accs = Inr (rs, s) \<and> py_index (cache s) index = Inr i \<longrightarrow>
        (if \<not> dict_contains (cache s ! i) tag \<and> \<not> int (length (cache s ! i)) < k
         then access_cache s tag index = Inl (ValueError ''Invalid replacement policy'', s)
         else \<exists>r s'. access_cache s tag index = Inr (r, s')))"
proof -
  have 1: "init a b n k p =
     (if k = 0 then Inl ZeroDivisionError
      else Inr \<lparr> address_space = a, block_size = b, num_blocks = n, association = k,
                 replacement_policy = p, cache = replicate (nat (n div k)) [],
                 lru_tracker = replicate (nat (n div k)) [], access_counter = 0 \<rparr>)"
    by (simp add: init_def)
  have 2: "if \<not> dict_contains (cache s ! i) tag \<and> \<not> int (length (cache s ! i)) < k
         then access_cache s tag index = Inl (ValueError ''Invalid replacement policy'', s)
         else \<exists>r s'. access_cache s tag index = Inr (r, s')"
    if h: "init a b n k p = Inr s0 \<and> p \<notin> {''LRU'', ''MRU'', ''LOOKAHEAD''} \<and>
      run s0 accs = Inr (rs, s) \<and> py_index (cache s) index = Inr i"
    for s0 accs rs s tag index i
  proof -
    have c0: "consistent s0" using h init_consistent by blast
    have c: "consistent s" using c0 h run_consistent by blast
    then have ka: "keys_agree s" by (simp add: consistent_def)
    have fr: "association s = k" "replacement_policy s = p"
      using run_frame [OF c0, of accs rs s] init_fields [of a b n k p s0] h by simp_all
    have cv: "choose_victim s index = Inl (ValueError ''Invalid replacement policy'')"
      using h fr by (intro choose_victim_unknown) simp
    from ka show ?thesis
    proof (cases rule: access_cache_cases [where tag = tag and index = index])
      case (index_error e)
      with h show ?thesis by simp
    next
      case (hit j)
      with h show ?thesis by simp
    next
      case (fill j)
      with h fr show ?thesis by simp
    next
      case (victim_error j e)
      with h fr cv show ?thesis by simp
    next
      case (evict j v)
      with cv show ?thesis by simp
    qed
  qed
  from 1 2 show ?thesis by blast
qed

theorem init_checks_nothing_witness:
  "init 8 3 5 2 ''FIFO'' = Inr odd0 \<and>
   run odd0 [(1, 0), (2, 0)] = Inr ([''M'', ''M''], odd2) \<and>
   py_index (cache odd2) 0 = Inr 0 \<and>
   access_cache odd2 3 0 = Inl (ValueError ''Invalid replacement policy'', odd2) \<and>
   init 8 4 4 0 ''LRU'' = Inl ZeroDivisionError"
proof -
  have i: "init 8 3 5 2 ''FIFO'' = Inr odd0"
    by (simp add: init_def odd0_def eval_nat_numeral)
  have r: "run odd0 [(1, 0), (2, 0)] = Inr ([''M'', ''M''], odd2)"
    by (simp add: odd0_def odd2_def exec_simps)
  have p: "py_index (cache odd2) 0 = Inr 0" by (simp add: odd2_def py_index_def)
  have a: "access_cache odd2 3 0 = Inl (ValueError ''Invalid replacement policy'', odd2)"
    by (simp add: odd2_def exec_simps)
  have z: "init 8 4 4 0 ''LRU'' = Inl ZeroDivisionError"
    using init_checks_nothing [of 8 4 4 0 "''LRU''"] by simp
  from init_checks_nothing [of 8 3 5 2 "''FIFO''"] i r p a z show ?thesis by blast
qed

subsection \<open>Indices outside the sets\<close>

lemma py_index_wrap:
  assumes "- int (length xs) \<le> index" "index < 0"
  shows "py_index xs (index + int (length xs)) = py_index xs index"
  using assms by (simp add: py_index_def Let_def)

lemma choose_victim_wrap:
  assumes "py_index (lru_tracker s) index' = py_index (lru_tracker s) index"
  shows "choose_victim s index' = choose_victim s index"
  using assms by (simp add: choose_victim_def)

text \<open>
  An access depends on the index only through the position it denotes in the two lists.
\<close>

lemma access_cache_same_position:
  assumes ka: "keys_agree s"
    and p: "py_index (cache s) index' = py_index (cache s) index"
  shows "access_cache s tag index' = access_cache s tag index"
proof -
  note l = keys_agree_length [OF ka]
  have "py_index (lru_tracker s) index' = py_index (lru_tracker s) index"
    using p l by (simp add: py_index_def)
  note cv = choose_victim_wrap [OF this]
  from ka show ?thesis
  proof (cases rule: access_cache_cases [where tag = tag and index = index])
    case (index_error e)
    then show ?thesis using p access_cache_index_error [of s index' e tag] by simp
  next
    case (hit i)
    then show ?thesis using p access_cache_hit [of s index' i tag] l by simp
  next
    case (fill i)
    then show ?thesis using p access_cache_fill [of s index' i tag] l by simp
  next
    case (victim_error i e)
    then show ?thesis
      using p cv access_cache_victim_error [of s index' i tag e] l by simp
  next
    case (evict i v)
    have "dict_contains (lru_tracker s ! i) v"
      using evict(6) keys_agree_nth [OF ka evict(2)] dict_contains_keys by blast
    then show ?thesis
      using evict p cv access_cache_evict [of s index' i tag v] l by simp
  qed
qed

text \<open>
  Claim C7 as stated does not hold: with two sets, the index \<open>-1\<close> is outside
  \<open>[0, 2)\<close>, and the access is carried out on set 1.
\<close>

theorem negative_index_reaches_a_set:
  "init 8 1 4 2 ''LRU'' = Inr two0 \<and> length (cache two0) = 2 \<and>
   access_cache two0 5 (- 1) =
     Inr (''M'', two0\<lparr>cache := [[], [(5, 0)]], lru_tracker := [[], [(5, 1)]],
                       access_counter := 1\<rparr>)"
  by (simp add: init_def two0_def exec_simps eval_nat_numeral)

text \<open>
  Claim C7, amended. In a state reached from the constructor, an access with an index
  \<open>index \<ge> set_count\<close> or \<open>index < - set_count\<close> raises \<^verbatim>\<open>IndexError\<close> and leaves
  the object as it was. An index in \<open>[- set_count, 0)\<close> is not rejected: it counts from
  the end of the list, and the access is the access to the set \<open>index + set_count\<close>.
\<close>

theorem index_out_of_range:
  assumes "init a b n k p = Inr s0" and "run s0 accs = Inr (rs, s)"
  shows "(int (length (cache s)) \<le> index \<or> index < - int (length (cache s)) \<longrightarrow>
            access_cache s tag index = Inl (IndexError, s)) \<and>
         (- int (length (cache s)) \<le> index \<and> index < 0 \<longrightarrow>
            access_cache s tag index = access_cache s tag (index + int (length (cache s))))"
proof -
  have c0: "consistent s0" using assms(1) by (rule init_consistent)
  have c: "consistent s" using c0 assms(2) by (rule run_consistent)
  then have ka: "keys_agree s" by (simp add: consistent_def)
  have 1: "access_cache s tag index = Inl (IndexError, s)"
    if "int (length (cache s)) \<le> index \<or> index < - int (length (cache s))"
  proof -
    have "py_index (cache s) index = Inl IndexError"
      using that by (auto simp add: py_index_def Let_def)
    then show ?thesis by (rule access_cache_index_error)
  qed
  have 2: "access_cache s tag index = access_cache s tag (index + int (length (cache s)))"
    if "- int (length (cache s)) \<le> index \<and> index < 0"
    using ka py_index_wrap [of "cache s" index] that
    by (intro access_cache_same_position [symmetric]) simp_all
  from 1 2 show ?thesis by blast
qed

theorem index_out_of_range_witness:
  "init 8 1 4 2 ''LRU'' = Inr two0 \<and> run two0 [] = Inr ([], two0) \<and>
   length (cache two0) = 2 \<and>
   access_cache two0 5 2 = Inl (IndexError, two0) \<and>
   access_cache two0 5 (- 3) = Inl (IndexError, two0) \<and>
   access_cache two0 5 (- 1) = access_cache two0 5 1"
proof -
  have i: "init 8 1 4 2 ''LRU'' = Inr two0"
    by (simp add: init_def two0_def eval_nat_numeral)
  have r: "run two0 [] = Inr ([], two0)" by simp
  have n: "length (cache two0) = 2" by (simp add: two0_def)
  from index_out_of_range [OF i r, of 2 5] index_out_of_range [OF i r, of "- 3" 5]
    index_out_of_range [OF i r, of "- 1" 5] i r n
  show ?thesis by simp
qed

subsection \<open>Every address has a text\<close>

lemma of_char_hex_char:
  "d < 16 \<Longrightarrow> (of_char (hex_char d) :: nat) = (if d < 10 then 48 + d else 55 + d)"
  by (simp add: hex_char_def)

lemma hex_digit_value_hex_char: "d < 16 \<Longrightarrow> hex_digit_value (hex_char d) = Some (int d)"
  by (simp add: hex_digit_value_def of_char_hex_char Let_def)

lemma hex_char_plain:
  assumes "d < 16"
  shows "hex_char d \<noteq> CHR ''_''" "hex_char d \<noteq> CHR ''+''" "hex_char d \<noteq> CHR ''-''"
    "hex_char d \<noteq> CHR ''x''" "hex_char d \<noteq> CHR ''X''" "\<not> py_isspace (hex_char d)"
proof -
  have r: "48 \<le> (of_char (hex_char d) :: nat)" "(of_char (hex_char d) :: nat) \<le> 70"
    using assms by (simp_all add: of_char_hex_char)
  have c: "hex_char d \<noteq> c" if "(of_char c :: nat) < 48 \<or> 70 < (of_char c :: nat)" for c
    using r that by auto
  show "hex_char d \<noteq> CHR ''_''" "hex_char d \<noteq> CHR ''+''" "hex_char d \<noteq> CHR ''-''"
    "hex_char d \<noteq> CHR ''x''" "hex_char d \<noteq> CHR ''X''"
    by (rule c, simp)+
  show "\<not> py_isspace (hex_char d)"
    unfolding py_isspace_def using c [of "CHR 0x09"] c [of "CHR 0x0A"] c [of "CHR 0x0B"]
      c [of "CHR 0x0C"] c [of "CHR 0x0D"] c [of "CHR 0x20"] by simp
qed

lemma scan_hex_char:
  "d < 16 \<Longrightarrow> scan_digits u acc cnt (hex_char d # cs)
     = scan_digits False (16 * acc + int d) (Suc cnt) cs"
  by (simp add: hex_char_plain hex_digit_value_hex_char)

lemma scan_format_X:
  "scan_digits False acc cnt (format_X n @ rest)
     = scan_digits False (acc * 16 ^ length (format_X n) + int n)
         (cnt + length (format_X n)) rest"
proof (induction n arbitrary: rest rule: format_X.induct)
  case (1 n)
  show ?case
  proof (cases "n < 16")
    case True
    then show ?thesis
      by (simp add: format_X.simps [of n] scan_hex_char mult.commute del: scan_digits.simps)
  next
    case False
    define m where "m = length (format_X (n div 16))"
    have f: "format_X n = format_X (n div 16) @ [hex_char (n mod 16)]"
      using False by (simp add: format_X.simps [of n])
    have "scan_digits False acc cnt (format_X n @ rest)
        = scan_digits False (acc * 16 ^ m + int (n div 16)) (cnt + m)
            (hex_char (n mod 16) # rest)"
      unfolding f m_def using "1.IH" [OF False, of "hex_char (n mod 16) # rest"] by simp
    also have "\<dots> = scan_digits False (16 * (acc * 16 ^ m + int (n div 16)) + int (n mod 16))
                       (Suc (cnt + m)) rest"
      by (rule scan_hex_char) simp
    also have "16 * (acc * 16 ^ m + int (n div 16)) + int (n mod 16)
                 = acc * 16 ^ Suc m + int n"
    proof -
      have "int n = 16 * int (n div 16) + int (n mod 16)"
        by (metis mult_div_mod_eq of_nat_add of_nat_mult of_nat_numeral)
      then show ?thesis by (simp add: algebra_simps)
    qed
    finally show ?thesis by (simp add: f m_def)
  qed
qed

lemma format_X_head: "\<exists>d cs. d < 16 \<and> format_X n = hex_char d # cs"
proof (induction n rule: format_X.induct)
  case (1 n)
  show ?case
  proof (cases "n < 16")
    case True
    then show ?thesis by (auto simp add: format_X.simps [of n])
  next
    case False
    with "1.IH" obtain d cs where "d < 16" "format_X (n div 16) = hex_char d # cs" by blast
    with False show ?thesis by (auto simp add: format_X.simps [of n])
  qed
qed

lemma format_X_no_prefix:
  "format_X n = c # d # cs \<Longrightarrow> \<not> (c = CHR ''0'' \<and> (d = CHR ''x'' \<or> d = CHR ''X''))"
proof (induction n arbitrary: c d cs rule: format_X.induct)
  case (1 n)
  show ?case
  proof (cases "n < 16")
    case True
    with "1.prems" show ?thesis by (simp add: format_X.simps [of n])
  next
    case False
    then have f: "format_X n = format_X (n div 16) @ [hex_char (n mod 16)]"
      by (simp add: format_X.simps [of n])
    from format_X_head [of "n div 16"] obtain e es where
      e: "e < 16" "format_X (n div 16) = hex_char e # es" by blast
    show ?thesis
    proof (cases es)
      case Nil
      with f e "1.prems" have "d = hex_char (n mod 16)" by simp
      then show ?thesis using hex_char_plain(4,5) [of "n mod 16"] by simp
    next
      case (Cons x xs)
      with f e "1.prems" have "format_X (n div 16) = c # d # xs" by simp
      from "1.IH" [OF False this] show ?thesis .
    qed
  qed
qed

text \<open>
  Every address \<open>n \<ge> 0\<close> is the value of a text that \<^verbatim>\<open>parse_address\<close> accepts, with
  or without the leading \<^verbatim>\<open>x\<close>: the text that \<^verbatim>\<open>simulate\<close> itself prints for \<open>n\<close>.
\<close>

lemma py_int16_format_X: "py_int16 (format_X n) = Inr (int n)"
proof -
  from format_X_head [of n] obtain d cs where d: "d < 16" "format_X n = hex_char d # cs"
    by blast
  note p = hex_char_plain [OF d(1)]
  have s1: "dropWhile py_isspace (format_X n) = format_X n"
    using d p(6) by simp
  have neg: "(case format_X n of c # x \<Rightarrow> c = CHR ''-'' | [] \<Rightarrow> False) = False"
    using d p(3) by simp
  have s2: "(case format_X n of c # cs \<Rightarrow> (if c = CHR ''+'' \<or> c = CHR ''-'' then cs else format_X n)
             | [] \<Rightarrow> format_X n) = format_X n"
    using d p(2,3) by simp
  have s3: "(case format_X n of
               c # e # es \<Rightarrow>
                 (if c = CHR ''0'' \<and> (e = CHR ''x'' \<or> e = CHR ''X'')
                  then (case es of g # gs \<Rightarrow> (if g = CHR ''_'' then gs else es) | [] \<Rightarrow> es)
                  else format_X n)
             | _ \<Rightarrow> format_X n) = format_X n"
    using format_X_no_prefix [of n] by (auto split: list.splits)
  have sc: "scan_digits False 0 0 (format_X n) = Some (int n, length (format_X n), [])"
    using scan_format_X [of 0 0 n "[]"] by simp
  have ln: "length (format_X n) \<noteq> 0" using d by simp
  have fin: "(case format_X n of [] \<Rightarrow> Inl invalid_literal
              | c # x \<Rightarrow> if c = CHR ''_'' then Inl invalid_literal else F) = F" for F
    using d p(1) by simp
  show ?thesis
    unfolding py_int16_def Let_def s1 neg s2 s3 fin sc
    using ln by simp
qed

lemma every_address_has_text:
  "py_int16 (strip_x (format_X n)) = Inr (int n)"
  "py_int16 (strip_x (CHR ''x'' # format_X n)) = Inr (int n)"
proof -
  from format_X_head [of n] obtain d cs where d: "d < 16" "format_X n = hex_char d # cs"
    by blast
  then have "strip_x (format_X n) = format_X n"
    using hex_char_plain(4) [OF d(1)] by (simp add: strip_x_def)
  then show "py_int16 (strip_x (format_X n)) = Inr (int n)"
    by (simp add: py_int16_format_X)
  show "py_int16 (strip_x (CHR ''x'' # format_X n)) = Inr (int n)"
    by (simp add: strip_x_def py_int16_format_X)
qed

end
